theory Spec2Isabelle
  imports Main
begin

section \<open>Data model\<close>

text \<open>
  A pointer \<open>T*\<close> is an optional address; \<open>None\<close> is \<open>nullptr\<close>.
\<close>

type_synonym addr = nat
type_synonym ptr = "addr option"

text \<open>
  A pooled object of type \<open>T\<close>. \<open>pool.h\<close> reads and writes the members
  \<open>next\<close> (in \<open>extract\<close>) and \<open>list_next\<close> (in \<open>acquire\<close> and
  \<open>iterate\<close>) and drives the in-use flag through \<open>set_in_use\<close> and
  \<open>reset_in_use\<close>. Everything else \<open>T\<close> holds is the component \<open>payload\<close>.
\<close>

record 'a pooled =
  "next" :: ptr
  list_next :: ptr
  in_use :: bool
  payload :: 'a

text \<open>
  \<open>PoolState<T>\<close>: the flag of the lock, the stack (its top pointer) and the head
  of the list of all objects ever allocated.
\<close>

record PoolState =
  lock :: bool
  stack :: ptr
  list :: ptr

text \<open>
  The program state the pool operations act on: the pool state that \<open>get_state()\<close>
  refers to, and the memory holding the pooled objects. An address outside the
  domain of \<open>mem\<close> holds no object.
\<close>

record 'a machine =
  pool_st :: PoolState
  mem :: "addr \<rightharpoonup> 'a pooled"

text \<open>
  How a call can end without returning: \<open>Fatal msg s\<close> is the platform error channel
  halting the process in state \<open>s\<close>; \<open>Undefined\<close> is a dereference of \<open>nullptr\<close> or of
  an address that holds no object; \<open>Spins\<close> is a lock acquisition that retries for ever.
\<close>

datatype 's fault = Fatal string 's | Undefined | Spins

type_synonym ('r, 'a) outcome = "'a machine fault + 'r \<times> 'a machine"

definition init :: "'a machine" where
  "init = \<lparr>pool_st = \<lparr>lock = False, stack = None, list = None\<rparr>, mem = Map.empty\<rparr>"

section \<open>Collaborators that are not part of \<open>pool.h\<close>\<close>

text \<open>
  Modelled from the spec: \<open>Pooled::set_in_use\<close> (\<open>pooled.h\<close> is missing). The spec says
  acquire will "set the in-use flag".
\<close>

definition set_in_use :: "'a pooled \<Rightarrow> 'a pooled" where
  "set_in_use ob = ob\<lparr>in_use := True\<rparr>"

text \<open>
  Modelled from the spec: \<open>Pooled::reset_in_use\<close> (\<open>pooled.h\<close> is missing). The spec says
  release will "clear the in-use flag".
\<close>

definition reset_in_use :: "'a pooled \<Rightarrow> 'a pooled" where
  "reset_in_use ob = ob\<lparr>in_use := False\<rparr>"

text \<open>
  Modelled from the spec: \<open>MPMCStack::push(first, last)\<close> (\<open>mpmcstack.h\<close> is missing).
  The spec: "splice an existing chain of objects in as a single atomic batch", on a linked
  stack whose link is the free-list link field (the member \<open>next\<close> that \<open>extract\<close> walks).
  The last object of the chain is linked to the old top and \<open>first\<close> becomes the top.
\<close>

definition push :: "ptr \<Rightarrow> ptr \<Rightarrow> 'a machine \<Rightarrow> (unit, 'a) outcome" where
  "push first last' s =
     (case last' of
        None \<Rightarrow> Inl Undefined
      | Some l \<Rightarrow>
          (case mem s l of
             None \<Rightarrow> Inl Undefined
           | Some ob \<Rightarrow>
               Inr ((), s\<lparr>mem := (mem s)(l \<mapsto> ob\<lparr>next := stack (pool_st s)\<rparr>),
                          pool_st := (pool_st s)\<lparr>stack := first\<rparr>\<rparr>)))"

text \<open>
  Modelled from the spec: \<open>MPMCStack::push(node)\<close> (\<open>mpmcstack.h\<close> is missing).
  The spec: "insert one object".
\<close>

definition push_one :: "ptr \<Rightarrow> 'a machine \<Rightarrow> (unit, 'a) outcome" where
  "push_one item s = push item item s"

text \<open>
  Modelled from the spec: \<open>MPMCStack::pop()\<close> (\<open>mpmcstack.h\<close> is missing).
  The spec: "remove and return the most recently accessible object, or a null result if
  empty"; the object popped keeps its contents ("clear nothing").
\<close>

definition pop :: "'a machine \<Rightarrow> (ptr, 'a) outcome" where
  "pop s =
     (case stack (pool_st s) of
        None \<Rightarrow> Inr (None, s)
      | Some t \<Rightarrow>
          (case mem s t of
             None \<Rightarrow> Inl Undefined
           | Some ob \<Rightarrow> Inr (Some t, s\<lparr>pool_st := (pool_st s)\<lparr>stack := next ob\<rparr>\<rparr>)))"

text \<open>
  Modelled from the spec: \<open>MPMCStack::pop_all()\<close> (\<open>mpmcstack.h\<close> is missing).
  The spec: "atomically detach and return the entire chain, leaving the free-list empty".
  An empty stack is left as it is.
\<close>

definition pop_all :: "'a machine \<Rightarrow> (ptr, 'a) outcome" where
  "pop_all s =
     (case stack (pool_st s) of
        None \<Rightarrow> Inr (None, s)
      | Some t \<Rightarrow> Inr (Some t, s\<lparr>pool_st := (pool_st s)\<lparr>stack := None\<rparr>\<rparr>))"

text \<open>
  Modelled from the spec: the scoped \<open>FlagLock\<close> (\<open>flaglock.h\<close> is missing). The spec:
  "Blocks by retrying until acquired", with "guaranteed release on every exit path".
  With the flag already set and nobody to clear it, acquisition never ends.
\<close>

definition flag_lock :: "'a machine \<Rightarrow> (unit, 'a) outcome" where
  "flag_lock s =
     (if lock (pool_st s) then Inl Spins
      else Inr ((), s\<lparr>pool_st := (pool_st s)\<lparr>lock := True\<rparr>\<rparr>))"

definition flag_unlock :: "'a machine \<Rightarrow> 'a machine" where
  "flag_unlock s = s\<lparr>pool_st := (pool_st s)\<lparr>lock := False\<rparr>\<rparr>"

text \<open>
  The memory supplier \<open>ChunkAllocator::alloc_meta_data\<close> (\<open>slaballocator.h\<close> is missing)
  is a parameter of \<open>acquire\<close>: its answer \<open>supplied\<close> is \<open>None\<close> when it fails, and
  \<open>Some (a, ob)\<close> when it has constructed the object \<open>ob\<close> at address \<open>a\<close>.
\<close>

definition alloc_meta_data :: "(addr \<times> 'a pooled) option \<Rightarrow> 'a machine \<Rightarrow> ptr \<times> 'a machine" where
  "alloc_meta_data supplied s =
     (case supplied of
        None \<Rightarrow> (None, s)
      | Some (a, ob) \<Rightarrow> (Some a, s\<lparr>mem := (mem s)(a \<mapsto> ob)\<rparr>))"

text \<open>
  Modelled from the spec: \<open>Pal::error\<close> (the platform layer is missing). The spec:
  "report a fatal message and halt".
\<close>

definition pal_error :: "string \<Rightarrow> 'a machine \<Rightarrow> ('r, 'a) outcome" where
  "pal_error msg s = Inl (Fatal msg s)"

section \<open>The pool operations of \<open>pool.h\<close>\<close>

text \<open>Sequencing of calls: the first fault ends the computation.\<close>

definition and_then ::
  "('r, 'a) outcome \<Rightarrow> ('r \<Rightarrow> 'a machine \<Rightarrow> ('q, 'a) outcome) \<Rightarrow> ('q, 'a) outcome" where
  "and_then m f = (case m of Inl e \<Rightarrow> Inl e | Inr (r, s) \<Rightarrow> f r s)"

text \<open>Update of the object a pointer refers to; a bad pointer is undefined behaviour.\<close>

definition modify :: "ptr \<Rightarrow> ('a pooled \<Rightarrow> 'a pooled) \<Rightarrow> 'a machine \<Rightarrow> (unit, 'a) outcome" where
  "modify p f s =
     (case p of
        None \<Rightarrow> Inl Undefined
      | Some a \<Rightarrow>
          (case mem s a of
             None \<Rightarrow> Inl Undefined
           | Some ob \<Rightarrow> Inr ((), s\<lparr>mem := (mem s)(a \<mapsto> f ob)\<rparr>)))"

text \<open>Read of a member of the object a pointer refers to.\<close>

definition deref :: "ptr \<Rightarrow> ('a pooled \<Rightarrow> 'r) \<Rightarrow> 'a machine \<Rightarrow> ('r, 'a) outcome" where
  "deref p g s =
     (case p of
        None \<Rightarrow> Inl Undefined
      | Some a \<Rightarrow>
          (case mem s a of
             None \<Rightarrow> Inl Undefined
           | Some ob \<Rightarrow> Inr (g ob, s)))"

text \<open>
  \<open>Pool::acquire\<close>, \<open>release\<close>, \<open>extract\<close>, \<open>restore\<close> and \<open>iterate\<close>, statement by
  statement. \<open>get_state()\<close> yields the pool state of the machine; what the default
  accessor does besides is the subject of \<open>pool\<close> below. The constructor arguments of
  \<open>acquire\<close> go to the supplier only, whose answer is the parameter \<open>supplied\<close>. The
  scoped lock is released when \<open>acquire\<close> returns.
\<close>

definition acquire :: "(addr \<times> 'a pooled) option \<Rightarrow> 'a machine \<Rightarrow> (ptr, 'a) outcome" where
  "acquire supplied s =
     and_then (pop s) (\<lambda>p s1.
       if p \<noteq> None then
         and_then (modify p set_in_use s1) (\<lambda>_ s2. Inr (p, s2))
       else
         (case alloc_meta_data supplied s1 of (p, s2) \<Rightarrow>
            if p = None then
              pal_error ''Failed to initialise thread local allocator.'' s2
            else
              and_then (flag_lock s2) (\<lambda>_ s3.
              and_then (modify p (\<lambda>ob. ob\<lparr>list_next := list (pool_st s3)\<rparr>) s3) (\<lambda>_ s4.
              and_then (Inr ((), s4\<lparr>pool_st := (pool_st s4)\<lparr>list := p\<rparr>\<rparr>)) (\<lambda>_ s5.
              and_then (modify p set_in_use s5) (\<lambda>_ s6.
                Inr (p, flag_unlock s6)))))))"

definition release :: "ptr \<Rightarrow> 'a machine \<Rightarrow> (unit, 'a) outcome" where
  "release p s =
     and_then (modify p reset_in_use s) (\<lambda>_ s1. push_one p s1)"

definition "extract" :: "ptr \<Rightarrow> 'a machine \<Rightarrow> (ptr, 'a) outcome" where
  "extract p s = (if p = None then pop_all s else deref p next s)"

definition restore :: "ptr \<Rightarrow> ptr \<Rightarrow> 'a machine \<Rightarrow> (unit, 'a) outcome" where
  "restore first last' s = push first last' s"

definition iterate :: "ptr \<Rightarrow> 'a machine \<Rightarrow> (ptr, 'a) outcome" where
  "iterate p s = (if p = None then Inr (list (pool_st s), s) else deref p list_next s)"

section \<open>Walking the two link relations\<close>

text \<open>
  \<open>chain link m p xs q\<close>: following the member \<open>link\<close> from the pointer \<open>p\<close> through
  the memory \<open>m\<close> visits exactly the objects \<open>xs\<close>, in this order, and arrives at \<open>q\<close>.
\<close>

primrec chain ::
  "('a pooled \<Rightarrow> ptr) \<Rightarrow> (addr \<rightharpoonup> 'a pooled) \<Rightarrow> ptr \<Rightarrow> addr list \<Rightarrow> ptr \<Rightarrow> bool" where
  "chain link m p [] q = (p = q)"
| "chain link m p (x # xs) q =
     (p = Some x \<and> (case m x of None \<Rightarrow> False | Some ob \<Rightarrow> chain link m (link ob) xs q))"

text \<open>The free-list holds \<open>xs\<close>: the stack's top leads through \<open>next\<close> to \<open>nullptr\<close>.\<close>

definition free_list :: "'a machine \<Rightarrow> addr list \<Rightarrow> bool" where
  "free_list s xs = chain next (mem s) (stack (pool_st s)) xs None"

text \<open>
  What a caller sees who walks the registry with \<open>iterate\<close>: starting after \<open>p\<close>, the
  calls return the objects \<open>xs\<close> one after the other and then \<open>nullptr\<close>.
\<close>

primrec iterate_from :: "'a machine \<Rightarrow> ptr \<Rightarrow> addr list \<Rightarrow> bool" where
  "iterate_from s p [] = (case iterate p s of Inl _ \<Rightarrow> False | Inr (q, _) \<Rightarrow> q = None)"
| "iterate_from s p (x # xs) =
     (case iterate p s of Inl _ \<Rightarrow> False | Inr (q, _) \<Rightarrow> q = Some x \<and> iterate_from s q xs)"

definition traversal :: "'a machine \<Rightarrow> addr list \<Rightarrow> bool" where
  "traversal s xs = iterate_from s None xs"

section \<open>Sequences of calls\<close>

datatype 'a call =
  Acquire "(addr \<times> 'a pooled) option"
| Release ptr
| Extract ptr
| Restore ptr ptr
| Iterate ptr

definition state_of :: "('r, 'a) outcome \<Rightarrow> 'a machine fault + 'a machine" where
  "state_of r = (case r of Inl e \<Rightarrow> Inl e | Inr (_, s) \<Rightarrow> Inr s)"

fun exec :: "'a call \<Rightarrow> 'a machine \<Rightarrow> 'a machine fault + 'a machine" where
  "exec (Acquire supplied) s = state_of (acquire supplied s)"
| "exec (Release p) s = state_of (release p s)"
| "exec (Extract p) s = state_of (extract p s)"
| "exec (Restore first last') s = state_of (restore first last' s)"
| "exec (Iterate p) s = state_of (iterate p s)"

fun run :: "'a call list \<Rightarrow> 'a machine \<Rightarrow> 'a machine fault + 'a machine" where
  "run [] s = Inr s"
| "run (c # cs) s = (case exec c s of Inl e \<Rightarrow> Inl e | Inr s' \<Rightarrow> run cs s')"

text \<open>
  The objects a call constructs: \<open>acquire\<close> asks the supplier only when the free-list
  is empty.
\<close>

fun built :: "'a call \<Rightarrow> 'a machine \<Rightarrow> addr list" where
  "built (Acquire (Some (a, ob))) s = (if stack (pool_st s) = None then [a] else [])"
| "built _ s = []"

text \<open>The supplier hands out memory that holds no object yet.\<close>

fun fresh :: "'a call \<Rightarrow> 'a machine \<Rightarrow> bool" where
  "fresh (Acquire (Some (a, ob))) s = (stack (pool_st s) = None \<longrightarrow> mem s a = None)"
| "fresh _ s = True"

fun supplied_fresh :: "'a call list \<Rightarrow> 'a machine \<Rightarrow> bool" where
  "supplied_fresh [] s = True"
| "supplied_fresh (c # cs) s =
     (fresh c s \<and> (case exec c s of Inl _ \<Rightarrow> True | Inr s' \<Rightarrow> supplied_fresh cs s'))"

text \<open>The objects constructed during a sequence of calls, in the order of construction.\<close>

fun constructed :: "'a call list \<Rightarrow> 'a machine \<Rightarrow> addr list" where
  "constructed [] s = []"
| "constructed (c # cs) s =
     (case exec c s of Inl _ \<Rightarrow> [] | Inr s' \<Rightarrow> built c s @ constructed cs s')"

text \<open>The registry holds \<open>rs\<close>: the list head leads through \<open>list_next\<close> to \<open>nullptr\<close>.\<close>

definition registry :: "'a machine \<Rightarrow> addr list \<Rightarrow> bool" where
  "registry s rs = chain list_next (mem s) (list (pool_st s)) rs None"

section \<open>States reachable by callers that keep the contract\<close>

text \<open>
  The comments of \<open>release\<close> and \<open>restore\<close> state the contract: \<open>release\<close> takes an
  object previously retrieved by \<open>acquire\<close> (one that is in use), \<open>restore\<close> takes a
  linked list of objects previously retrieved by \<open>extract\<close>. \<open>reachable s C\<close> holds
  of the states \<open>s\<close> such callers can reach from the initial state; \<open>C\<close> is the set
  of claimed objects: those detached by \<open>extract(nullptr)\<close> and not yet restored.
\<close>

inductive reachable :: "'a machine \<Rightarrow> addr set \<Rightarrow> bool" where
  start: "reachable init {}"
| acquire_step:
    "reachable s C \<Longrightarrow> fresh (Acquire supplied) s \<Longrightarrow> acquire supplied s = Inr (p, s') \<Longrightarrow>
     reachable s' C"
| release_step:
    "reachable s C \<Longrightarrow> mem s a = Some ob \<Longrightarrow> in_use ob \<Longrightarrow> release (Some a) s = Inr (u, s') \<Longrightarrow>
     reachable s' C"
| extract_all_step:
    "reachable s C \<Longrightarrow> free_list s xs \<Longrightarrow> extract None s = Inr (q, s') \<Longrightarrow>
     reachable s' (C \<union> set xs)"
| extract_walk_step:
    "reachable s C \<Longrightarrow> extract (Some a) s = Inr (q, s') \<Longrightarrow> reachable s' C"
| restore_step:
    "reachable s C \<Longrightarrow> chain next (mem s) (Some f) ys q \<Longrightarrow> ys \<noteq> [] \<Longrightarrow> last ys = l \<Longrightarrow>
     distinct ys \<Longrightarrow> set ys \<subseteq> C \<Longrightarrow> restore (Some f) (Some l) s = Inr (u, s') \<Longrightarrow>
     reachable s' (C - set ys)"
| iterate_step:
    "reachable s C \<Longrightarrow> iterate p s = Inr (q, s') \<Longrightarrow> reachable s' C"

text \<open>
  What holds of every reachable state: the free-list is a list \<open>xs\<close> of distinct
  objects, none of them claimed; claimed objects exist; and an object is in use exactly
  when it is neither on the free-list nor claimed.
\<close>

definition pool_inv :: "'a machine \<Rightarrow> addr set \<Rightarrow> addr list \<Rightarrow> bool" where
  "pool_inv s C xs =
     (free_list s xs \<and> distinct xs \<and> set xs \<inter> C = {} \<and> C \<subseteq> dom (mem s) \<and>
      (\<forall>a ob. mem s a = Some ob \<longrightarrow> (in_use ob \<longleftrightarrow> a \<notin> set xs \<and> a \<notin> C)))"

section \<open>The singleton pool state\<close>

text \<open>
  \<open>SingletonPoolState<T, SharedStateHandle>\<close> has one static member \<open>state\<close> and one
  thread-local flag \<open>initialized\<close>, which starts out false in every thread. Threads
  are numbered. The storage of the class is thus the location \<open>Static_state\<close> and one
  location \<open>Thread_initialized t\<close> for each thread \<open>t\<close>; a reference is a location.
  \<open>SharedStateHandle::ensure_init\<close> is not part of \<open>pool.h\<close>; what is recorded of
  it is who called it, in \<open>hook_calls\<close>.
\<close>

type_synonym tid = nat

datatype location = Static_state | Thread_initialized tid

record gate =
  initialized :: "tid \<Rightarrow> bool"
  hook_calls :: "tid list"

definition gate0 :: gate where
  "gate0 = \<lparr>initialized = (\<lambda>_. False), hook_calls = []\<rparr>"

text \<open>
  The two overloads of \<open>call_ensure_init\<close>: \<open>declared\<close> tells whether
  \<open>SharedStateHandle\<close> implements \<open>ensure_init\<close>, which the compiler decides.
\<close>

definition call_ensure_init :: "bool \<Rightarrow> tid \<Rightarrow> gate \<Rightarrow> gate" where
  "call_ensure_init declared t g =
     (if declared then g\<lparr>hook_calls := hook_calls g @ [t]\<rparr> else g)"

definition ensure_init :: "bool \<Rightarrow> tid \<Rightarrow> gate \<Rightarrow> gate" where
  "ensure_init declared t g = call_ensure_init declared t g"

definition pool :: "bool \<Rightarrow> tid \<Rightarrow> gate \<Rightarrow> location \<times> gate" where
  "pool declared t g =
     (let g' = (if \<not> initialized g t
                then (let g1 = ensure_init declared t g
                      in g1\<lparr>initialized := (initialized g1)(t := True)\<rparr>)
                else g)
      in (Static_state, g'))"

text \<open>Calls of \<open>pool()\<close> by the threads \<open>ts\<close>, one after the other.\<close>

fun pool_calls :: "bool \<Rightarrow> tid list \<Rightarrow> gate \<Rightarrow> location list \<times> gate" where
  "pool_calls declared [] g = ([], g)"
| "pool_calls declared (t # ts) g =
     (case pool declared t g of (r, g1) \<Rightarrow>
        (case pool_calls declared ts g1 of (rs, g2) \<Rightarrow> (r # rs, g2)))"

text \<open>
  The thread markers and the calls of the hook agree: a thread whose marker is set has
  called the hook, when there is one, exactly once, and no other thread has.
\<close>

definition gate_ok :: "bool \<Rightarrow> gate \<Rightarrow> bool" where
  "gate_ok declared g =
     (distinct (hook_calls g) \<and>
      set (hook_calls g) = (if declared then {t. initialized g t} else {}))"

section \<open>Basic facts\<close>

lemma and_then_Inr [simp]: "and_then (Inr (r, s)) f = f r s"
  by (simp add: and_then_def)

lemma and_then_Inl [simp]: "and_then (Inl e) f = Inl e"
  by (simp add: and_then_def)

lemma modify_Some [simp]:
  "mem s a = Some ob \<Longrightarrow> modify (Some a) f s = Inr ((), s\<lparr>mem := (mem s)(a \<mapsto> f ob)\<rparr>)"
  by (simp add: modify_def)

lemma deref_Some [simp]: "mem s a = Some ob \<Longrightarrow> deref (Some a) g s = Inr (g ob, s)"
  by (simp add: deref_def)

lemma pop_empty: "stack (pool_st s) = None \<Longrightarrow> pop s = Inr (None, s)"
  by (simp add: pop_def)

lemma pop_all_empty: "stack (pool_st s) = None \<Longrightarrow> pop_all s = Inr (None, s)"
  by (simp add: pop_all_def)

lemma push_one_Some:
  "mem s a = Some ob \<Longrightarrow>
   push_one (Some a) s =
     Inr ((), s\<lparr>mem := (mem s)(a \<mapsto> ob\<lparr>next := stack (pool_st s)\<rparr>),
                pool_st := (pool_st s)\<lparr>stack := Some a\<rparr>\<rparr>)"
  by (simp add: push_one_def push_def)

lemma release_Some:
  "mem s p = Some ob \<Longrightarrow>
   release (Some p) s =
     Inr ((), s\<lparr>mem := (mem s)(p \<mapsto> ob\<lparr>in_use := False, next := stack (pool_st s)\<rparr>),
                pool_st := (pool_st s)\<lparr>stack := Some p\<rparr>\<rparr>)"
  by (simp add: release_def push_one_def push_def reset_in_use_def)

lemma chain_upd_other:
  "x \<notin> set xs \<Longrightarrow> chain link (m(x \<mapsto> ob)) p xs q = chain link m p xs q"
  by (induction xs arbitrary: p) (auto split: option.splits)

lemma chain_same_links:
  "chain link m p xs q \<Longrightarrow>
   \<forall>x\<in>set xs. \<forall>ob. m x = Some ob \<longrightarrow> (\<exists>ob'. m' x = Some ob' \<and> link ob' = link ob) \<Longrightarrow>
   chain link m' p xs q"
proof (induction xs arbitrary: p)
  case Nil
  then show ?case by simp
next
  case (Cons x xs)
  from Cons.prems(1) obtain ob where ob: "p = Some x" "m x = Some ob" "chain link m (link ob) xs q"
    by (auto split: option.splits)
  from Cons.prems(2) ob obtain ob' where ob': "m' x = Some ob'" "link ob' = link ob"
    by auto
  have "chain link m' (link ob) xs q"
    using Cons.IH [OF ob(3)] Cons.prems(2) by simp
  with ob ob' show ?case by simp
qed

lemma chain_in_dom: "chain link m p xs q \<Longrightarrow> x \<in> set xs \<Longrightarrow> \<exists>ob. m x = Some ob"
  by (induction xs arbitrary: p) (auto split: option.splits)

lemma chain_append:
  "chain link m p (xs @ ys) q = (\<exists>r. chain link m p xs r \<and> chain link m r ys q)"
  by (induction xs arbitrary: p) (auto split: option.splits)

lemma chain_unique: "chain link m p xs None \<Longrightarrow> chain link m p ys None \<Longrightarrow> xs = ys"
proof (induction xs arbitrary: p ys)
  case Nil
  then show ?case by (cases ys) auto
next
  case (Cons x xs)
  then show ?case by (cases ys) (auto split: option.splits)
qed


lemma iterate_None [simp]: "iterate None s = Inr (list (pool_st s), s)"
  by (simp add: iterate_def)

lemma iterate_Some:
  "iterate (Some a) s = (case mem s a of None \<Rightarrow> Inl Undefined | Some ob \<Rightarrow> Inr (list_next ob, s))"
  by (simp add: iterate_def deref_def)

lemma iterate_from_Some:
  "iterate_from s (Some a) xs =
     (case mem s a of None \<Rightarrow> False | Some ob \<Rightarrow> chain list_next (mem s) (list_next ob) xs None)"
proof (induction xs arbitrary: a)
  case Nil
  then show ?case by (auto simp: iterate_Some split: option.splits)
next
  case (Cons x xs)
  then show ?case by (auto simp: iterate_Some split: option.splits)
qed

lemma traversal_chain:
  "traversal s xs = chain list_next (mem s) (list (pool_st s)) xs None"
proof (cases xs)
  case Nil
  then show ?thesis by (auto simp: traversal_def)
next
  case (Cons x ys)
  then show ?thesis by (auto simp: traversal_def iterate_from_Some split: option.splits)
qed


lemma acquire_hit:
  "stack (pool_st s) = Some t \<Longrightarrow> mem s t = Some ob \<Longrightarrow>
   acquire supplied s =
     Inr (Some t, s\<lparr>pool_st := (pool_st s)\<lparr>stack := next ob\<rparr>,
                     mem := (mem s)(t \<mapsto> ob\<lparr>in_use := True\<rparr>)\<rparr>)"
  by (simp add: acquire_def pop_def set_in_use_def)

lemma acquire_miss:
  "stack (pool_st s) = None \<Longrightarrow> \<not> lock (pool_st s) \<Longrightarrow>
   acquire (Some (a, ob)) s =
     Inr (Some a, s\<lparr>mem := (mem s)(a \<mapsto> ob\<lparr>list_next := list (pool_st s), in_use := True\<rparr>),
                     pool_st := (pool_st s)\<lparr>list := Some a\<rparr>\<rparr>)"
  by (simp add: acquire_def pop_def alloc_meta_data_def flag_lock_def flag_unlock_def
      set_in_use_def)

lemma acquire_cases:
  assumes "acquire supplied s = Inr (p, s')"
  obtains (hit) t ob where "stack (pool_st s) = Some t" "mem s t = Some ob" "p = Some t"
      "s' = s\<lparr>pool_st := (pool_st s)\<lparr>stack := next ob\<rparr>,
               mem := (mem s)(t \<mapsto> ob\<lparr>in_use := True\<rparr>)\<rparr>"
  | (miss) a ob where "stack (pool_st s) = None" "\<not> lock (pool_st s)" "supplied = Some (a, ob)"
      "p = Some a"
      "s' = s\<lparr>mem := (mem s)(a \<mapsto> ob\<lparr>list_next := list (pool_st s), in_use := True\<rparr>),
               pool_st := (pool_st s)\<lparr>list := Some a\<rparr>\<rparr>"
proof (cases "stack (pool_st s)")
  case None
  show ?thesis
  proof (cases supplied)
    case N: None
    with None assms show ?thesis
      by (simp add: acquire_def pop_def alloc_meta_data_def pal_error_def)
  next
    case (Some ao)
    obtain a ob where ao: "ao = (a, ob)" by (cases ao)
    show ?thesis
    proof (cases "lock (pool_st s)")
      case True
      with None Some ao assms show ?thesis
        by (simp add: acquire_def pop_def alloc_meta_data_def flag_lock_def)
    next
      case False
      have "acquire supplied s =
        Inr (Some a, s\<lparr>mem := (mem s)(a \<mapsto> ob\<lparr>list_next := list (pool_st s), in_use := True\<rparr>),
                        pool_st := (pool_st s)\<lparr>list := Some a\<rparr>\<rparr>)"
        using acquire_miss [OF None False, of a ob] Some ao by simp
      with assms have "p = Some a"
        "s' = s\<lparr>mem := (mem s)(a \<mapsto> ob\<lparr>list_next := list (pool_st s), in_use := True\<rparr>),
                 pool_st := (pool_st s)\<lparr>list := Some a\<rparr>\<rparr>"
        by auto
      with None False Some ao show ?thesis by (intro miss [of a ob]) simp_all
    qed
  qed
next
  case (Some t)
  show ?thesis
  proof (cases "mem s t")
    case None
    with Some assms show ?thesis by (simp add: acquire_def pop_def)
  next
    case S: (Some ob)
    have "acquire supplied s =
      Inr (Some t, s\<lparr>pool_st := (pool_st s)\<lparr>stack := next ob\<rparr>,
                      mem := (mem s)(t \<mapsto> ob\<lparr>in_use := True\<rparr>)\<rparr>)"
      by (rule acquire_hit [OF Some S])
    with assms have "p = Some t"
      "s' = s\<lparr>pool_st := (pool_st s)\<lparr>stack := next ob\<rparr>,
               mem := (mem s)(t \<mapsto> ob\<lparr>in_use := True\<rparr>)\<rparr>"
      by auto
    with Some S show ?thesis by (intro hit [of t ob]) simp_all
  qed
qed

lemma release_cases:
  assumes "release p s = Inr (u, s')"
  obtains a ob where "p = Some a" "mem s a = Some ob"
    "s' = s\<lparr>mem := (mem s)(a \<mapsto> ob\<lparr>in_use := False, next := stack (pool_st s)\<rparr>),
             pool_st := (pool_st s)\<lparr>stack := Some a\<rparr>\<rparr>"
proof (cases p)
  case None
  with assms show ?thesis by (simp add: release_def modify_def)
next
  case (Some a)
  show ?thesis
  proof (cases "mem s a")
    case None
    with Some assms show ?thesis by (simp add: release_def modify_def)
  next
    case S: (Some ob)
    from assms Some release_Some [OF S]
    have "s' = s\<lparr>mem := (mem s)(a \<mapsto> ob\<lparr>in_use := False, next := stack (pool_st s)\<rparr>),
             pool_st := (pool_st s)\<lparr>stack := Some a\<rparr>\<rparr>"
      by simp
    with Some S show ?thesis by (intro that [of a ob]) simp_all
  qed
qed

lemma restore_Some:
  "mem s l = Some ob \<Longrightarrow>
   restore first (Some l) s =
     Inr ((), s\<lparr>mem := (mem s)(l \<mapsto> ob\<lparr>next := stack (pool_st s)\<rparr>),
                pool_st := (pool_st s)\<lparr>stack := first\<rparr>\<rparr>)"
  by (simp add: restore_def push_def)

lemma restore_cases:
  assumes "restore first last' s = Inr (u, s')"
  obtains l ob where "last' = Some l" "mem s l = Some ob"
    "s' = s\<lparr>mem := (mem s)(l \<mapsto> ob\<lparr>next := stack (pool_st s)\<rparr>),
             pool_st := (pool_st s)\<lparr>stack := first\<rparr>\<rparr>"
proof (cases last')
  case None
  with assms show ?thesis by (simp add: restore_def push_def)
next
  case (Some l)
  show ?thesis
  proof (cases "mem s l")
    case None
    with Some assms show ?thesis by (simp add: restore_def push_def)
  next
    case S: (Some ob)
    from assms Some restore_Some [OF S, of first]
    have "s' = s\<lparr>mem := (mem s)(l \<mapsto> ob\<lparr>next := stack (pool_st s)\<rparr>),
             pool_st := (pool_st s)\<lparr>stack := first\<rparr>\<rparr>"
      by simp
    with Some S show ?thesis by (intro that [of l ob]) simp_all
  qed
qed

lemma extract_None: "extract None s = Inr (stack (pool_st s), s\<lparr>pool_st := (pool_st s)\<lparr>stack := None\<rparr>\<rparr>)"
  by (cases "stack (pool_st s)") (simp_all add: extract_def pop_all_def)

lemma extract_Some:
  "extract (Some a) s = (case mem s a of None \<Rightarrow> Inl Undefined | Some ob \<Rightarrow> Inr (next ob, s))"
  by (simp add: extract_def deref_def)

lemma extract_cases:
  assumes "extract p s = Inr (q, s')"
  obtains (all) "p = None" "q = stack (pool_st s)" "s' = s\<lparr>pool_st := (pool_st s)\<lparr>stack := None\<rparr>\<rparr>"
  | (walk) a ob where "p = Some a" "mem s a = Some ob" "q = next ob" "s' = s"
proof (cases p)
  case None
  with assms have "q = stack (pool_st s)" "s' = s\<lparr>pool_st := (pool_st s)\<lparr>stack := None\<rparr>\<rparr>"
    by (simp_all add: extract_None)
  with None show ?thesis by (intro all) simp_all
next
  case (Some a)
  show ?thesis
  proof (cases "mem s a")
    case None
    with Some assms show ?thesis by (simp add: extract_Some)
  next
    case S: (Some ob)
    with Some assms have "q = next ob" "s' = s" by (simp_all add: extract_Some)
    with Some S show ?thesis by (intro walk [of a ob]) simp_all
  qed
qed

lemma iterate_state: "iterate p s = Inr (q, s') \<Longrightarrow> s' = s"
  by (auto simp: iterate_def deref_def split: if_splits option.splits)


lemma state_of_Inr: "state_of r = Inr s' \<Longrightarrow> \<exists>x. r = Inr (x, s')"
  by (auto simp: state_of_def split: sum.splits)

lemma registry_frame:
  fixes s s' :: "'a machine"
  assumes "registry s rs" "list (pool_st s') = list (pool_st s)"
    and "\<And>x ob. mem s x = Some ob \<Longrightarrow> \<exists>ob'. mem s' x = Some ob' \<and> list_next ob' = list_next ob"
  shows "registry s' rs"
proof -
  have "chain list_next (mem s) (list (pool_st s)) rs None"
    using assms(1) by (simp add: registry_def)
  then have "chain list_next (mem s') (list (pool_st s)) rs None"
    by (rule chain_same_links) (use assms(3) in blast)
  then show ?thesis by (simp add: registry_def assms(2))
qed

lemma exec_registry:
  assumes ex: "exec c s = Inr s'" and fr: "fresh c s" and reg: "registry s rs"
  shows "registry s' (rev (built c s) @ rs)"
proof (cases c)
  case (Acquire supplied)
  with ex obtain p where acq: "acquire supplied s = Inr (p, s')"
    by (auto dest: state_of_Inr)
  then show ?thesis
  proof (cases rule: acquire_cases)
    case (hit t ob)
    have "built c s = []" using Acquire hit(1) by (cases supplied) auto
    moreover have "registry s' rs"
      using reg by (rule registry_frame) (auto simp: hit)
    ultimately show ?thesis by simp
  next
    case (miss a ob)
    have b: "built c s = [a]" using Acquire miss by simp
    have "mem s a = None" using fr Acquire miss by simp
    then have "a \<notin> set rs"
      using reg chain_in_dom [of list_next "mem s" "list (pool_st s)" rs None a]
      by (auto simp: registry_def)
    then have "registry s' (a # rs)"
      using reg by (simp add: registry_def miss chain_upd_other)
    with b show ?thesis by simp
  qed
next
  case (Release p)
  with ex obtain u where "release p s = Inr (u, s')" by (auto dest: state_of_Inr)
  then have "registry s' rs"
  proof (cases rule: release_cases)
    case (1 a ob)
    show ?thesis using reg by (rule registry_frame) (auto simp: 1)
  qed
  with Release show ?thesis by simp
next
  case (Extract p)
  with ex obtain q where "extract p s = Inr (q, s')" by (auto dest: state_of_Inr)
  then have "registry s' rs"
  proof (cases rule: extract_cases)
    case all
    show ?thesis using reg by (rule registry_frame) (auto simp: all)
  next
    case (walk a ob)
    with reg show ?thesis by simp
  qed
  with Extract show ?thesis by simp
next
  case (Restore first last')
  with ex obtain u where "restore first last' s = Inr (u, s')" by (auto dest: state_of_Inr)
  then have "registry s' rs"
  proof (cases rule: restore_cases)
    case (1 l ob)
    show ?thesis using reg by (rule registry_frame) (auto simp: 1)
  qed
  with Restore show ?thesis by simp
next
  case (Iterate p)
  with ex obtain q where "iterate p s = Inr (q, s')" by (auto dest: state_of_Inr)
  then have "s' = s" by (rule iterate_state)
  with reg Iterate show ?thesis by simp
qed

lemma run_registry:
  "run cs s = Inr s' \<Longrightarrow> supplied_fresh cs s \<Longrightarrow> registry s rs \<Longrightarrow>
   registry s' (rev (constructed cs s) @ rs)"
proof (induction cs arbitrary: s rs)
  case Nil
  then show ?case by simp
next
  case (Cons c cs)
  from Cons.prems(1) obtain s1 where s1: "exec c s = Inr s1" "run cs s1 = Inr s'"
    by (auto split: sum.splits)
  from Cons.prems(2) s1 have fr: "fresh c s" "supplied_fresh cs s1" by auto
  have "registry s1 (rev (built c s) @ rs)"
    using s1(1) fr(1) Cons.prems(3) by (rule exec_registry)
  from Cons.IH [OF s1(2) fr(2) this] s1(1) show ?case by simp
qed

lemma registry_init: "registry init []"
  by (simp add: registry_def init_def)

lemma exec_mem_mono:
  assumes "exec c s = Inr s'" "mem s x = Some ob"
  shows "\<exists>ob'. mem s' x = Some ob'"
proof (cases c)
  case (Acquire supplied)
  with assms obtain p where "acquire supplied s = Inr (p, s')" by (auto dest: state_of_Inr)
  then show ?thesis using assms(2) by (cases rule: acquire_cases) auto
next
  case (Release p)
  with assms obtain u where "release p s = Inr (u, s')" by (auto dest: state_of_Inr)
  then show ?thesis using assms(2) by (cases rule: release_cases) auto
next
  case (Extract p)
  with assms obtain q where "extract p s = Inr (q, s')" by (auto dest: state_of_Inr)
  then show ?thesis using assms(2) by (cases rule: extract_cases) auto
next
  case (Restore first last')
  with assms obtain u where "restore first last' s = Inr (u, s')" by (auto dest: state_of_Inr)
  then show ?thesis using assms(2) by (cases rule: restore_cases) auto
next
  case (Iterate p)
  with assms obtain q where "iterate p s = Inr (q, s')" by (auto dest: state_of_Inr)
  then have "s' = s" by (rule iterate_state)
  with assms(2) show ?thesis by simp
qed

lemma built_fresh: "x \<in> set (built c s) \<Longrightarrow> fresh c s \<Longrightarrow> mem s x = None"
  by (induction c s rule: built.induct) (auto split: if_splits)

lemma constructed_fresh:
  "run cs s = Inr s' \<Longrightarrow> supplied_fresh cs s \<Longrightarrow> x \<in> set (constructed cs s) \<Longrightarrow> mem s x = None"
proof (induction cs arbitrary: s)
  case Nil
  then show ?case by simp
next
  case (Cons c cs)
  from Cons.prems(1) obtain s1 where s1: "exec c s = Inr s1" "run cs s1 = Inr s'"
    by (auto split: sum.splits)
  from Cons.prems(2) s1 have fr: "fresh c s" "supplied_fresh cs s1" by auto
  from Cons.prems(3) s1 have "x \<in> set (built c s) \<or> x \<in> set (constructed cs s1)" by simp
  then show ?case
  proof
    assume "x \<in> set (built c s)"
    then show ?thesis using fr(1) by (rule built_fresh)
  next
    assume "x \<in> set (constructed cs s1)"
    with Cons.IH [OF s1(2) fr(2)] have "mem s1 x = None" by simp
    with exec_mem_mono [OF s1(1), of x] show ?thesis by (cases "mem s x") auto
  qed
qed

lemma chain_last_link:
  "chain link m p xs q \<Longrightarrow> xs \<noteq> [] \<Longrightarrow> \<exists>ob. m (last xs) = Some ob \<and> link ob = q"
proof (induction xs arbitrary: p)
  case Nil
  then show ?case by simp
next
  case (Cons x xs)
  then show ?case by (cases xs) (auto split: option.splits)
qed

lemma chain_head: "chain link m p xs q \<Longrightarrow> xs \<noteq> [] \<Longrightarrow> p = Some (hd xs)"
  by (cases xs) auto

lemma chain_relink_last:
  assumes "chain link m p ys q" "ys \<noteq> []" "distinct ys"
  shows "chain link (m(last ys \<mapsto> ob')) p ys (link ob')"
proof -
  from assms(2) have ys: "ys = butlast ys @ [last ys]" by simp
  from assms(3) ys have nin: "last ys \<notin> set (butlast ys)"
    by (metis distinct_append distinct.simps(2) disjoint_iff list.set_intros(1))
  from assms(1) ys have "chain link m p (butlast ys @ [last ys]) q" by simp
  then have "chain link m p (butlast ys) (Some (last ys))"
    by (auto simp: chain_append split: option.splits)
  with nin have "chain link (m(last ys \<mapsto> ob')) p (butlast ys) (Some (last ys))"
    by (simp add: chain_upd_other)
  moreover have "chain link (m(last ys \<mapsto> ob')) (Some (last ys)) [last ys] (link ob')"
    by simp
  ultimately have "chain link (m(last ys \<mapsto> ob')) p (butlast ys @ [last ys]) (link ob')"
    unfolding chain_append by blast
  with ys show ?thesis by simp
qed

lemma traversal_frame:
  fixes s s' :: "'a machine"
  assumes "list (pool_st s') = list (pool_st s)"
    and "\<And>x ob. mem s x = Some ob \<Longrightarrow> \<exists>ob'. mem s' x = Some ob' \<and> list_next ob' = list_next ob"
    and "\<And>x ob'. mem s' x = Some ob' \<Longrightarrow> \<exists>ob. mem s x = Some ob \<and> list_next ob = list_next ob'"
  shows "traversal s' rs = traversal s rs"
proof
  assume "traversal s' rs"
  then have "registry s' rs" by (simp add: traversal_chain registry_def)
  then have "registry s rs"
    by (rule registry_frame) (use assms in auto)
  then show "traversal s rs" by (simp add: traversal_chain registry_def)
next
  assume "traversal s rs"
  then have "registry s rs" by (simp add: traversal_chain registry_def)
  then have "registry s' rs"
    by (rule registry_frame) (use assms in auto)
  then show "traversal s' rs" by (simp add: traversal_chain registry_def)
qed

lemma restore_splice:
  assumes ch: "chain next (mem s) first ys q" "ys \<noteq> []" "distinct ys"
    and fl: "free_list s xs" "set ys \<inter> set xs = {}"
    and ob: "mem s (last ys) = Some ob"
  shows "free_list
     (s\<lparr>mem := (mem s)(last ys \<mapsto> ob\<lparr>next := stack (pool_st s)\<rparr>),
        pool_st := (pool_st s)\<lparr>stack := first\<rparr>\<rparr>) (ys @ xs)"
proof -
  let ?ob' = "ob\<lparr>next := stack (pool_st s)\<rparr>"
  let ?m = "(mem s)(last ys \<mapsto> ?ob')"
  have "chain next ?m first ys (next ?ob')"
    using ch by (rule chain_relink_last)
  then have 1: "chain next ?m first ys (stack (pool_st s))" by simp
  have "last ys \<in> set ys" using ch(2) by (rule last_in_set)
  with fl(2) have "last ys \<notin> set xs" by blast
  then have 2: "chain next ?m (stack (pool_st s)) xs None"
    using fl(1) by (simp add: free_list_def chain_upd_other)
  from 1 2 have "chain next ?m first (ys @ xs) None"
    unfolding chain_append by blast
  then show ?thesis by (simp add: free_list_def)
qed

lemma run_extract_empty:
  "stack (pool_st s) = None \<Longrightarrow> run (replicate n (Extract None)) s = Inr s"
  by (induction n) (simp_all add: extract_def pop_all_empty state_of_def)

section \<open>Failure of the memory supplier\<close>

text \<open>
  C4. When \<open>acquire\<close> finds the free-list empty and the supplier fails, it does not
  return: the message goes to the platform error channel, which halts the process, and
  the state at the halt is the state \<open>acquire\<close> was called in, so neither the registry
  nor the free-list has changed and nothing was tried again.
\<close>

theorem acquire_supplier_failure_fatal:
  "stack (pool_st s) = None \<Longrightarrow>
   acquire None s = Inl (Fatal ''Failed to initialise thread local allocator.'' s)"
  by (simp add: acquire_def pop_empty alloc_meta_data_def pal_error_def)

theorem acquire_supplier_failure_fatal_witness:
  "stack (pool_st (init :: unit machine)) = None \<and>
   acquire None (init :: unit machine) =
     Inl (Fatal ''Failed to initialise thread local allocator.'' init)"
  using acquire_supplier_failure_fatal [of "init :: unit machine"]
  by (simp add: init_def)

section \<open>The registry\<close>

text \<open>
  C1, as stated, fails: the registry is not visited in the order of construction. After
  object 1 and then object 2 have been constructed, \<open>iterate(nullptr)\<close> returns
  object 2, not the first-ever-constructed object 1, and the traversal is not \<open>[1, 2]\<close>.
\<close>

theorem iterate_null_first_constructed_counterexample:
  "supplied_fresh
     [Acquire (Some (1, \<lparr>next = None, list_next = None, in_use = False, payload = ()\<rparr>)),
      Acquire (Some (2, \<lparr>next = None, list_next = None, in_use = False, payload = ()\<rparr>))] init \<and>
   constructed
     [Acquire (Some (1, \<lparr>next = None, list_next = None, in_use = False, payload = ()\<rparr>)),
      Acquire (Some (2, \<lparr>next = None, list_next = None, in_use = False, payload = ()\<rparr>))] init = [1, 2] \<and>
   run
     [Acquire (Some (1, \<lparr>next = None, list_next = None, in_use = False, payload = ()\<rparr>)),
      Acquire (Some (2, \<lparr>next = None, list_next = None, in_use = False, payload = ()\<rparr>))] init =
     Inr \<lparr>pool_st = \<lparr>lock = False, stack = None, list = Some 2\<rparr>,
          mem = [1 \<mapsto> \<lparr>next = None, list_next = None, in_use = True, payload = ()\<rparr>,
                 2 \<mapsto> \<lparr>next = None, list_next = Some 1, in_use = True, payload = ()\<rparr>]\<rparr> \<and>
   iterate None
     \<lparr>pool_st = \<lparr>lock = False, stack = None, list = Some 2\<rparr>,
      mem = [1 \<mapsto> \<lparr>next = None, list_next = None, in_use = True, payload = ()\<rparr>,
             2 \<mapsto> \<lparr>next = None, list_next = Some 1, in_use = True, payload = ()\<rparr>]\<rparr> =
     Inr (Some 2,
       \<lparr>pool_st = \<lparr>lock = False, stack = None, list = Some 2\<rparr>,
        mem = [1 \<mapsto> \<lparr>next = None, list_next = None, in_use = True, payload = ()\<rparr>,
               2 \<mapsto> \<lparr>next = None, list_next = Some 1, in_use = True, payload = ()\<rparr>]\<rparr>) \<and>
   \<not> traversal
     \<lparr>pool_st = \<lparr>lock = False, stack = None, list = Some 2\<rparr>,
      mem = [1 \<mapsto> \<lparr>next = None, list_next = None, in_use = True, payload = ()\<rparr>,
             2 \<mapsto> \<lparr>next = None, list_next = Some 1, in_use = True, payload = ()\<rparr>]\<rparr> [1, 2]"
  by (simp add: init_def acquire_miss state_of_def traversal_def iterate_Some)

text \<open>
  C1, amended. Every new object is spliced onto the head of the registry, so
  \<open>iterate(nullptr)\<close> returns the most recently constructed object and \<open>iterate(p)\<close>
  its registry successor: after any sequence of calls from the initial state (the
  supplier handing out fresh memory), the traversal visits the objects in the reverse of
  the order in which they were constructed.
\<close>

theorem iterate_visits_newest_first:
  "supplied_fresh cs init \<Longrightarrow> run cs init = Inr s \<Longrightarrow> traversal s (rev (constructed cs init))"
  using run_registry [of cs init s "[]"] registry_init
  by (simp add: traversal_chain registry_def)

theorem iterate_visits_newest_first_witness:
  "supplied_fresh
     [Acquire (Some (1, \<lparr>next = None, list_next = None, in_use = False, payload = ()\<rparr>)),
      Release (Some 1),
      Acquire (Some (2, \<lparr>next = None, list_next = None, in_use = False, payload = ()\<rparr>)),
      Acquire (Some (2, \<lparr>next = None, list_next = None, in_use = False, payload = ()\<rparr>))] init \<and>
   run
     [Acquire (Some (1, \<lparr>next = None, list_next = None, in_use = False, payload = ()\<rparr>)),
      Release (Some 1),
      Acquire (Some (2, \<lparr>next = None, list_next = None, in_use = False, payload = ()\<rparr>)),
      Acquire (Some (2, \<lparr>next = None, list_next = None, in_use = False, payload = ()\<rparr>))] init =
     Inr \<lparr>pool_st = \<lparr>lock = False, stack = None, list = Some 2\<rparr>,
          mem = [1 \<mapsto> \<lparr>next = None, list_next = None, in_use = True, payload = ()\<rparr>,
                 2 \<mapsto> \<lparr>next = None, list_next = Some 1, in_use = True, payload = ()\<rparr>]\<rparr> \<and>
   traversal
     \<lparr>pool_st = \<lparr>lock = False, stack = None, list = Some 2\<rparr>,
      mem = [1 \<mapsto> \<lparr>next = None, list_next = None, in_use = True, payload = ()\<rparr>,
             2 \<mapsto> \<lparr>next = None, list_next = Some 1, in_use = True, payload = ()\<rparr>]\<rparr>
     (rev [1, 2])"
proof -
  let ?ob = "\<lparr>next = None, list_next = None, in_use = False, payload = ()\<rparr>"
  let ?cs = "[Acquire (Some (1, ?ob)), Release (Some 1), Acquire (Some (2, ?ob)),
              Acquire (Some (2, ?ob))]"
  let ?s = "\<lparr>pool_st = \<lparr>lock = False, stack = None, list = Some 2\<rparr>,
          mem = [1 \<mapsto> \<lparr>next = None, list_next = None, in_use = True, payload = ()\<rparr>,
                 2 \<mapsto> \<lparr>next = None, list_next = Some 1, in_use = True, payload = ()\<rparr>]\<rparr>"
  have h1: "supplied_fresh ?cs init"
    by (simp add: init_def release_Some acquire_hit acquire_miss state_of_def)
  have h2: "run ?cs init = Inr ?s"
    by (simp add: init_def release_Some acquire_hit acquire_miss state_of_def)
  have h3: "constructed ?cs init = [1, 2]"
    by (simp add: init_def release_Some acquire_hit acquire_miss state_of_def)
  have "traversal ?s (rev (constructed ?cs init))"
    using h1 h2 by (rule iterate_visits_newest_first)
  then have h4: "traversal ?s (rev [1, 2])" by (simp only: h3)
  show ?thesis by (intro conjI h1 h2 h4)
qed

text \<open>
  C2. An object that \<open>acquire\<close> constructs on its allocation-miss path is in the
  registry from then on: whatever calls follow (the supplier handing out fresh memory, no
  call running into undefined behaviour), a full \<open>iterate\<close> traversal exists and every
  such traversal visits the object exactly once.
\<close>

theorem constructed_object_stays_registered:
  assumes tr: "traversal s rs"
    and miss: "stack (pool_st s) = None" "mem s a = None"
    and acq: "acquire (Some (a, ob)) s = Inr (p, s1)"
    and later: "supplied_fresh cs s1" "run cs s1 = Inr s2"
  shows "(\<exists>rs2. traversal s2 rs2) \<and> (\<forall>rs2. traversal s2 rs2 \<longrightarrow> count_list rs2 a = 1)"
proof -
  let ?c = "Acquire (Some (a, ob))"
  have reg: "registry s rs" using tr by (simp add: traversal_chain registry_def)
  have "exec ?c s = Inr s1" using acq by (simp add: state_of_def)
  moreover have "fresh ?c s" using miss by simp
  ultimately have "registry s1 (rev (built ?c s) @ rs)" using reg by (rule exec_registry)
  then have reg1: "registry s1 (a # rs)" using miss by simp
  have reg2: "registry s2 (rev (constructed cs s1) @ a # rs)"
    using later(2) later(1) reg1 by (rule run_registry)
  have "a \<notin> set rs"
    using reg miss(2) chain_in_dom [of list_next "mem s" "list (pool_st s)" rs None a]
    by (auto simp: registry_def)
  moreover have "a \<notin> set (constructed cs s1)"
  proof
    assume "a \<in> set (constructed cs s1)"
    with later have "mem s1 a = None" by (intro constructed_fresh)
    moreover have "mem s1 a \<noteq> None"
      using reg1 by (auto simp: registry_def split: option.splits)
    ultimately show False by simp
  qed
  ultimately have once: "count_list (rev (constructed cs s1) @ a # rs) a = 1"
    by (simp add: count_list_0_iff)
  have tr2: "traversal s2 (rev (constructed cs s1) @ a # rs)"
    using reg2 by (simp add: traversal_chain registry_def)
  have "count_list rs2 a = 1" if "traversal s2 rs2" for rs2
  proof -
    have "rs2 = rev (constructed cs s1) @ a # rs"
      using that tr2 unfolding traversal_chain by (rule chain_unique)
    with once show ?thesis by simp
  qed
  with tr2 show ?thesis by blast
qed

theorem constructed_object_stays_registered_witness:
  "traversal (init :: unit machine) [] \<and>
   stack (pool_st (init :: unit machine)) = None \<and>
   mem (init :: unit machine) 1 = None \<and>
   acquire (Some (1, \<lparr>next = None, list_next = None, in_use = False, payload = ()\<rparr>)) init =
     Inr (Some 1,
       \<lparr>pool_st = \<lparr>lock = False, stack = None, list = Some 1\<rparr>,
        mem = [1 \<mapsto> \<lparr>next = None, list_next = None, in_use = True, payload = ()\<rparr>]\<rparr>) \<and>
   supplied_fresh
     [Release (Some 1),
      Acquire (Some (2, \<lparr>next = None, list_next = None, in_use = False, payload = ()\<rparr>)),
      Acquire (Some (2, \<lparr>next = None, list_next = None, in_use = False, payload = ()\<rparr>)),
      Release (Some 2), Extract None, Iterate None]
     \<lparr>pool_st = \<lparr>lock = False, stack = None, list = Some 1\<rparr>,
      mem = [1 \<mapsto> \<lparr>next = None, list_next = None, in_use = True, payload = ()\<rparr>]\<rparr> \<and>
   run
     [Release (Some 1),
      Acquire (Some (2, \<lparr>next = None, list_next = None, in_use = False, payload = ()\<rparr>)),
      Acquire (Some (2, \<lparr>next = None, list_next = None, in_use = False, payload = ()\<rparr>)),
      Release (Some 2), Extract None, Iterate None]
     \<lparr>pool_st = \<lparr>lock = False, stack = None, list = Some 1\<rparr>,
      mem = [1 \<mapsto> \<lparr>next = None, list_next = None, in_use = True, payload = ()\<rparr>]\<rparr> =
     Inr \<lparr>pool_st = \<lparr>lock = False, stack = None, list = Some 2\<rparr>,
          mem = [1 \<mapsto> \<lparr>next = None, list_next = None, in_use = True, payload = ()\<rparr>,
                 2 \<mapsto> \<lparr>next = None, list_next = Some 1, in_use = False, payload = ()\<rparr>]\<rparr> \<and>
   traversal
     \<lparr>pool_st = \<lparr>lock = False, stack = None, list = Some 2\<rparr>,
      mem = [1 \<mapsto> \<lparr>next = None, list_next = None, in_use = True, payload = ()\<rparr>,
             2 \<mapsto> \<lparr>next = None, list_next = Some 1, in_use = False, payload = ()\<rparr>]\<rparr> [2, 1] \<and>
   count_list [2, 1] (1 :: addr) = 1"
proof -
  let ?ob = "\<lparr>next = None, list_next = None, in_use = False, payload = ()\<rparr>"
  let ?cs = "[Release (Some 1), Acquire (Some (2, ?ob)), Acquire (Some (2, ?ob)),
        Release (Some 2), Extract None, Iterate None]"
  let ?s1 = "\<lparr>pool_st = \<lparr>lock = False, stack = None, list = Some 1\<rparr>,
             mem = [1 \<mapsto> \<lparr>next = None, list_next = None, in_use = True, payload = ()\<rparr>]\<rparr>"
  let ?s2 = "\<lparr>pool_st = \<lparr>lock = False, stack = None, list = Some 2\<rparr>,
          mem = [1 \<mapsto> \<lparr>next = None, list_next = None, in_use = True, payload = ()\<rparr>,
                 2 \<mapsto> \<lparr>next = None, list_next = Some 1, in_use = False, payload = ()\<rparr>]\<rparr>"
  have h1: "traversal (init :: unit machine) []" by (simp add: traversal_def init_def)
  have h2: "stack (pool_st (init :: unit machine)) = None" "mem (init :: unit machine) 1 = None"
    by (simp_all add: init_def)
  have h3: "acquire (Some (1, ?ob)) init = Inr (Some 1, ?s1)"
    by (simp add: init_def acquire_miss)
  have h4: "supplied_fresh ?cs ?s1"
    by (simp add: release_Some acquire_hit acquire_miss extract_None state_of_def)
  have h5: "run ?cs ?s1 = Inr ?s2"
    by (simp add: release_Some acquire_hit acquire_miss extract_None state_of_def)
  have h6: "traversal ?s2 [2, 1]"
    by (simp add: traversal_def iterate_Some)
  note h7 = constructed_object_stays_registered [OF h1 h2 h3 h4 h5, THEN conjunct2, rule_format, OF h6]
  show ?thesis by (intro conjI h1 h2 h3 h4 h5 h6 h7)
qed

section \<open>Release\<close>

text \<open>
  C5. For an object \<open>p\<close> that holds \<open>ob\<close>, \<open>release(p)\<close> returns, and afterwards \<open>p\<close>
  holds \<open>ob\<close> with the in-use flag cleared and the free-list link set to the old top
  (no other member of \<open>p\<close> is touched: nothing is destroyed or reset), \<open>p\<close> is the top
  of the stack and heads the free-list, every other object is as it was, lock and
  registry head are as they were, and \<open>iterate\<close> walks the same registry.
\<close>

theorem release_clears_flag_and_pushes:
  assumes "mem s p = Some ob"
  shows "\<exists>s'. release (Some p) s = Inr ((), s') \<and>
     mem s' p = Some (ob\<lparr>in_use := False, next := stack (pool_st s)\<rparr>) \<and>
     payload (ob\<lparr>in_use := False, next := stack (pool_st s)\<rparr>) = payload ob \<and>
     list_next (ob\<lparr>in_use := False, next := stack (pool_st s)\<rparr>) = list_next ob \<and>
     stack (pool_st s') = Some p \<and>
     list (pool_st s') = list (pool_st s) \<and>
     lock (pool_st s') = lock (pool_st s) \<and>
     (\<forall>q. q \<noteq> p \<longrightarrow> mem s' q = mem s q) \<and>
     (\<forall>xs. free_list s xs \<and> p \<notin> set xs \<longrightarrow> free_list s' (p # xs)) \<and>
     (\<forall>rs. traversal s' rs = traversal s rs)"
proof -
  let ?s' = "s\<lparr>mem := (mem s)(p \<mapsto> ob\<lparr>in_use := False, next := stack (pool_st s)\<rparr>),
               pool_st := (pool_st s)\<lparr>stack := Some p\<rparr>\<rparr>"
  have r: "release (Some p) s = Inr ((), ?s')" using assms by (rule release_Some)
  have fl: "free_list ?s' (p # xs)" if "free_list s xs" "p \<notin> set xs" for xs
    using that by (simp add: free_list_def chain_upd_other)
  have tr: "traversal ?s' rs = traversal s rs" for rs
    by (rule traversal_frame) (use assms in \<open>auto split: if_splits\<close>)
  show ?thesis
    apply (rule exI [of _ ?s'])
    apply (intro conjI allI impI)
             apply (rule r)
            apply simp
           apply simp
          apply simp
         apply simp
        apply simp
       apply simp
      apply simp
     apply (erule conjE, erule (1) fl)
    apply (rule tr)
    done
qed

theorem release_clears_flag_and_pushes_witness:
  "mem \<lparr>pool_st = \<lparr>lock = False, stack = Some 1, list = Some 2\<rparr>,
        mem = [1 \<mapsto> \<lparr>next = None, list_next = None, in_use = False, payload = 10\<rparr>,
               2 \<mapsto> \<lparr>next = None, list_next = Some 1, in_use = True, payload = (20 :: nat)\<rparr>]\<rparr> 2 =
     Some \<lparr>next = None, list_next = Some 1, in_use = True, payload = 20\<rparr> \<and>
   release (Some 2)
     \<lparr>pool_st = \<lparr>lock = False, stack = Some 1, list = Some 2\<rparr>,
      mem = [1 \<mapsto> \<lparr>next = None, list_next = None, in_use = False, payload = 10\<rparr>,
             2 \<mapsto> \<lparr>next = None, list_next = Some 1, in_use = True, payload = (20 :: nat)\<rparr>]\<rparr> =
     Inr ((),
       \<lparr>pool_st = \<lparr>lock = False, stack = Some 2, list = Some 2\<rparr>,
        mem = [1 \<mapsto> \<lparr>next = None, list_next = None, in_use = False, payload = 10\<rparr>,
               2 \<mapsto> \<lparr>next = Some 1, list_next = Some 1, in_use = False, payload = 20\<rparr>]\<rparr>)"
proof -
  let ?s = "\<lparr>pool_st = \<lparr>lock = False, stack = Some 1, list = Some 2\<rparr>,
      mem = [1 \<mapsto> \<lparr>next = None, list_next = None, in_use = False, payload = 10\<rparr>,
             2 \<mapsto> \<lparr>next = None, list_next = Some 1, in_use = True, payload = (20 :: nat)\<rparr>]\<rparr>"
  let ?ob = "\<lparr>next = None, list_next = Some 1, in_use = True, payload = (20 :: nat)\<rparr>"
  have h: "mem ?s 2 = Some ?ob" by simp
  from release_clears_flag_and_pushes [OF h]
  obtain s' where s': "release (Some 2) ?s = Inr ((), s')"
    "mem s' 2 = Some (?ob\<lparr>in_use := False, next := stack (pool_st ?s)\<rparr>)"
    "stack (pool_st s') = Some 2" "list (pool_st s') = list (pool_st ?s)"
    "lock (pool_st s') = lock (pool_st ?s)" "\<forall>q. q \<noteq> 2 \<longrightarrow> mem s' q = mem ?s q"
    by blast
  have "s' = \<lparr>pool_st = \<lparr>lock = False, stack = Some 2, list = Some 2\<rparr>,
        mem = [1 \<mapsto> \<lparr>next = None, list_next = None, in_use = False, payload = 10\<rparr>,
               2 \<mapsto> \<lparr>next = Some 1, list_next = Some 1, in_use = False, payload = 20\<rparr>]\<rparr>"
    using s'(2-6) by (intro machine.equality PoolState.equality ext) auto
  with s'(1) h show ?thesis by simp
qed

section \<open>Release followed by acquire\<close>

text \<open>
  C6, as stated, fails: the free-list link is a field of the object, and \<open>release\<close>
  overwrites it. Objects 1 and 2 are constructed, released in this order and acquired
  again; both are then in use, the free-list is empty and object 2 still links to
  object 1. \<open>release(2)\<close> followed by \<open>acquire()\<close> returns object 2 with its link
  cleared.
\<close>

theorem release_acquire_all_fields_counterexample:
  "run
     [Acquire (Some (1, \<lparr>next = None, list_next = None, in_use = False, payload = ()\<rparr>)),
      Acquire (Some (2, \<lparr>next = None, list_next = None, in_use = False, payload = ()\<rparr>)),
      Release (Some 1), Release (Some 2), Acquire None, Acquire None] init =
     Inr \<lparr>pool_st = \<lparr>lock = False, stack = None, list = Some 2\<rparr>,
          mem = [1 \<mapsto> \<lparr>next = None, list_next = None, in_use = True, payload = ()\<rparr>,
                 2 \<mapsto> \<lparr>next = Some 1, list_next = Some 1, in_use = True, payload = ()\<rparr>]\<rparr> \<and>
   release (Some 2)
     \<lparr>pool_st = \<lparr>lock = False, stack = None, list = Some 2\<rparr>,
      mem = [1 \<mapsto> \<lparr>next = None, list_next = None, in_use = True, payload = ()\<rparr>,
             2 \<mapsto> \<lparr>next = Some 1, list_next = Some 1, in_use = True, payload = ()\<rparr>]\<rparr> =
     Inr ((),
       \<lparr>pool_st = \<lparr>lock = False, stack = Some 2, list = Some 2\<rparr>,
        mem = [1 \<mapsto> \<lparr>next = None, list_next = None, in_use = True, payload = ()\<rparr>,
               2 \<mapsto> \<lparr>next = None, list_next = Some 1, in_use = False, payload = ()\<rparr>]\<rparr>) \<and>
   acquire None
     \<lparr>pool_st = \<lparr>lock = False, stack = Some 2, list = Some 2\<rparr>,
      mem = [1 \<mapsto> \<lparr>next = None, list_next = None, in_use = True, payload = ()\<rparr>,
             2 \<mapsto> \<lparr>next = None, list_next = Some 1, in_use = False, payload = ()\<rparr>]\<rparr> =
     Inr (Some 2,
       \<lparr>pool_st = \<lparr>lock = False, stack = None, list = Some 2\<rparr>,
        mem = [1 \<mapsto> \<lparr>next = None, list_next = None, in_use = True, payload = ()\<rparr>,
               2 \<mapsto> \<lparr>next = None, list_next = Some 1, in_use = True, payload = ()\<rparr>]\<rparr>) \<and>
   next \<lparr>next = None, list_next = Some 1, in_use = True, payload = ()\<rparr> \<noteq>
   next \<lparr>next = Some 1, list_next = Some 1, in_use = True, payload = ()\<rparr>"
  by (simp add: init_def acquire_miss acquire_hit release_Some state_of_def fun_upd_twist)

text \<open>
  C6, amended. For an object \<open>x\<close> in use and an empty free-list, \<open>release(x)\<close>
  followed by \<open>acquire()\<close> returns \<open>x\<close> itself on the hit path: the result is the same
  whatever the supplier would answer and whatever the lock flag is. Afterwards \<open>x\<close>
  is in use again, with every field as before the release except the free-list link,
  which \<open>release\<close> has set to the old (empty) top; nothing else has changed.
\<close>

theorem release_then_acquire_returns_same:
  assumes "mem s x = Some ob" "in_use ob" "free_list s []"
  shows "\<exists>s1 s2. release (Some x) s = Inr ((), s1) \<and> free_list s1 [x] \<and>
     acquire supplied s1 = Inr (Some x, s2) \<and>
     mem s2 x = Some (ob\<lparr>next := None\<rparr>) \<and>
     (\<forall>y. y \<noteq> x \<longrightarrow> mem s2 y = mem s y) \<and>
     pool_st s2 = pool_st s"
proof -
  let ?s1 = "s\<lparr>mem := (mem s)(x \<mapsto> ob\<lparr>in_use := False, next := stack (pool_st s)\<rparr>),
               pool_st := (pool_st s)\<lparr>stack := Some x\<rparr>\<rparr>"
  let ?ob1 = "ob\<lparr>in_use := False, next := stack (pool_st s)\<rparr>"
  let ?s2 = "?s1\<lparr>pool_st := (pool_st ?s1)\<lparr>stack := next ?ob1\<rparr>,
                 mem := (mem ?s1)(x \<mapsto> ?ob1\<lparr>in_use := True\<rparr>)\<rparr>"
  have emp: "stack (pool_st s) = None" using assms(3) by (simp add: free_list_def)
  have r: "release (Some x) s = Inr ((), ?s1)" using assms(1) by (rule release_Some)
  have f: "free_list ?s1 [x]" using emp by (simp add: free_list_def)
  have a: "acquire supplied ?s1 = Inr (Some x, ?s2)"
    by (rule acquire_hit) simp_all
  have m: "mem ?s2 x = Some (ob\<lparr>next := None\<rparr>)" using emp assms(2) by simp
  have o: "\<forall>y. y \<noteq> x \<longrightarrow> mem ?s2 y = mem s y" by simp
  have p: "pool_st ?s2 = pool_st s" using emp by simp
  from r f a m o p show ?thesis by blast
qed

theorem release_then_acquire_returns_same_witness:
  "mem \<lparr>pool_st = \<lparr>lock = False, stack = None, list = Some 2\<rparr>,
        mem = [1 \<mapsto> \<lparr>next = None, list_next = None, in_use = True, payload = ()\<rparr>,
               2 \<mapsto> \<lparr>next = Some 1, list_next = Some 1, in_use = True, payload = ()\<rparr>]\<rparr> 2 =
     Some \<lparr>next = Some 1, list_next = Some 1, in_use = True, payload = ()\<rparr> \<and>
   in_use \<lparr>next = Some 1, list_next = Some 1, in_use = True, payload = ()\<rparr> \<and>
   free_list
     \<lparr>pool_st = \<lparr>lock = False, stack = None, list = Some 2\<rparr>,
      mem = [1 \<mapsto> \<lparr>next = None, list_next = None, in_use = True, payload = ()\<rparr>,
             2 \<mapsto> \<lparr>next = Some 1, list_next = Some 1, in_use = True, payload = ()\<rparr>]\<rparr> [] \<and>
   (\<exists>s1 s2.
      release (Some 2)
        \<lparr>pool_st = \<lparr>lock = False, stack = None, list = Some 2\<rparr>,
         mem = [1 \<mapsto> \<lparr>next = None, list_next = None, in_use = True, payload = ()\<rparr>,
                2 \<mapsto> \<lparr>next = Some 1, list_next = Some 1, in_use = True, payload = ()\<rparr>]\<rparr> =
        Inr ((), s1) \<and>
      acquire None s1 = Inr (Some 2, s2) \<and>
      mem s2 2 = Some \<lparr>next = None, list_next = Some 1, in_use = True, payload = ()\<rparr>)"
proof -
  let ?s = "\<lparr>pool_st = \<lparr>lock = False, stack = None, list = Some 2\<rparr>,
      mem = [1 \<mapsto> \<lparr>next = None, list_next = None, in_use = True, payload = ()\<rparr>,
             2 \<mapsto> \<lparr>next = Some 1, list_next = Some 1, in_use = True, payload = ()\<rparr>]\<rparr>"
  let ?ob = "\<lparr>next = Some 1, list_next = Some 1, in_use = True, payload = ()\<rparr>"
  have h1: "mem ?s 2 = Some ?ob" by simp
  have h2: "in_use ?ob" by simp
  have h3: "free_list ?s []" by (simp add: free_list_def)
  from release_then_acquire_returns_same [OF h1 h2 h3, of None]
  obtain s1 s2 where "release (Some 2) ?s = Inr ((), s1)" "acquire None s1 = Inr (Some 2, s2)"
    "mem s2 2 = Some (?ob\<lparr>next := None\<rparr>)"
    by blast
  then have "\<exists>s1 s2. release (Some 2) ?s = Inr ((), s1) \<and> acquire None s1 = Inr (Some 2, s2) \<and>
      mem s2 2 = Some \<lparr>next = None, list_next = Some 1, in_use = True, payload = ()\<rparr>"
    by auto
  with h1 h2 h3 show ?thesis by (intro conjI)
qed

section \<open>Extract and restore\<close>

text \<open>
  C7, as stated, fails at the empty free-list. With object 1 constructed and in use the
  free-list is empty; \<open>extract(nullptr)\<close> returns \<open>nullptr\<close>, so the chain has
  neither a first nor a last object, and \<open>restore(nullptr, nullptr)\<close> does not
  return the free-list to anything: it dereferences \<open>nullptr\<close>.
\<close>

theorem extract_restore_empty_counterexample:
  "run [Acquire (Some (1, \<lparr>next = None, list_next = None, in_use = False, payload = ()\<rparr>))]
     init =
     Inr \<lparr>pool_st = \<lparr>lock = False, stack = None, list = Some 1\<rparr>,
          mem = [1 \<mapsto> \<lparr>next = None, list_next = None, in_use = True, payload = ()\<rparr>]\<rparr> \<and>
   free_list
     \<lparr>pool_st = \<lparr>lock = False, stack = None, list = Some 1\<rparr>,
      mem = [1 \<mapsto> \<lparr>next = None, list_next = None, in_use = True, payload = ()\<rparr>]\<rparr> [] \<and>
   extract None
     \<lparr>pool_st = \<lparr>lock = False, stack = None, list = Some 1\<rparr>,
      mem = [1 \<mapsto> \<lparr>next = None, list_next = None, in_use = True, payload = ()\<rparr>]\<rparr> =
     Inr (None,
       \<lparr>pool_st = \<lparr>lock = False, stack = None, list = Some 1\<rparr>,
        mem = [1 \<mapsto> \<lparr>next = None, list_next = None, in_use = True, payload = ()\<rparr>]\<rparr>) \<and>
   restore None None
     \<lparr>pool_st = \<lparr>lock = False, stack = None, list = Some 1\<rparr>,
      mem = [1 \<mapsto> \<lparr>next = None, list_next = None, in_use = True, payload = ()\<rparr>]\<rparr> =
     Inl Undefined"
  by (simp add: init_def acquire_miss state_of_def free_list_def extract_None restore_def
      push_def)

text \<open>
  C7, amended. Whatever the free-list \<open>xs\<close> is, \<open>extract(nullptr)\<close> returns the head of
  the chain \<open>xs\<close> and leaves the free-list empty, the chain itself and the registry as
  they were. When the free-list was not empty, so that the chain has a first and a last
  object, \<open>restore(first, last)\<close> with this unmodified chain then returns, the
  free-list has the same members as before the \<open>extract\<close> (the state is the one before
  the \<open>extract\<close>), and the registry is as it was.
\<close>

theorem extract_restore_round_trip:
  assumes "free_list s xs"
  shows "\<exists>first s1. extract None s = Inr (first, s1) \<and> free_list s1 [] \<and>
     chain next (mem s1) first xs None \<and>
     (\<forall>rs. traversal s1 rs = traversal s rs) \<and>
     (xs \<noteq> [] \<longrightarrow>
        first = Some (hd xs) \<and>
        (\<exists>s2 ys. restore first (Some (last xs)) s1 = Inr ((), s2) \<and>
           free_list s2 ys \<and> set ys = set xs \<and> s2 = s \<and>
           (\<forall>rs. traversal s2 rs = traversal s rs)))"
proof -
  let ?s1 = "s\<lparr>pool_st := (pool_st s)\<lparr>stack := None\<rparr>\<rparr>"
  have ch: "chain next (mem s) (stack (pool_st s)) xs None"
    using assms by (simp add: free_list_def)
  have e: "extract None s = Inr (stack (pool_st s), ?s1)" by (rule extract_None)
  have f: "free_list ?s1 []" by (simp add: free_list_def)
  have c: "chain next (mem ?s1) (stack (pool_st s)) xs None" using ch by simp
  have t: "\<forall>rs. traversal ?s1 rs = traversal s rs"
    by (simp add: traversal_chain)
  have r: "stack (pool_st s) = Some (hd xs) \<and>
     (\<exists>s2 ys. restore (stack (pool_st s)) (Some (last xs)) ?s1 = Inr ((), s2) \<and>
           free_list s2 ys \<and> set ys = set xs \<and> s2 = s \<and>
           (\<forall>rs. traversal s2 rs = traversal s rs))" if ne: "xs \<noteq> []"
  proof -
    have hd: "stack (pool_st s) = Some (hd xs)" using ch ne by (rule chain_head)
    from chain_last_link [OF ch ne] obtain ob where
      ob: "mem s (last xs) = Some ob" "next ob = None" by blast
    have "ob\<lparr>next := None\<rparr> = ob" using ob(2) by simp
    then have m: "(mem s)(last xs \<mapsto> ob\<lparr>next := None\<rparr>) = mem s"
      using ob(1) by (simp add: fun_upd_idem)
    have p: "(pool_st s)\<lparr>stack := Some (hd xs)\<rparr> = pool_st s" using hd by simp
    have "restore (stack (pool_st s)) (Some (last xs)) ?s1 =
        Inr ((), ?s1\<lparr>mem := (mem ?s1)(last xs \<mapsto> ob\<lparr>next := stack (pool_st ?s1)\<rparr>),
                      pool_st := (pool_st ?s1)\<lparr>stack := stack (pool_st s)\<rparr>\<rparr>)"
      by (rule restore_Some) (simp add: ob)
    also have "?s1\<lparr>mem := (mem ?s1)(last xs \<mapsto> ob\<lparr>next := stack (pool_st ?s1)\<rparr>),
                      pool_st := (pool_st ?s1)\<lparr>stack := stack (pool_st s)\<rparr>\<rparr> = s"
      using m p hd by simp
    finally have "restore (stack (pool_st s)) (Some (last xs)) ?s1 = Inr ((), s)" .
    with hd assms show ?thesis by blast
  qed
  from e f c t r show ?thesis by blast
qed

theorem extract_restore_round_trip_witness:
  "free_list
     \<lparr>pool_st = \<lparr>lock = False, stack = Some 2, list = Some 2\<rparr>,
      mem = [1 \<mapsto> \<lparr>next = None, list_next = None, in_use = False, payload = ()\<rparr>,
             2 \<mapsto> \<lparr>next = Some 1, list_next = Some 1, in_use = False, payload = ()\<rparr>]\<rparr> [2, 1] \<and>
   extract None
     \<lparr>pool_st = \<lparr>lock = False, stack = Some 2, list = Some 2\<rparr>,
      mem = [1 \<mapsto> \<lparr>next = None, list_next = None, in_use = False, payload = ()\<rparr>,
             2 \<mapsto> \<lparr>next = Some 1, list_next = Some 1, in_use = False, payload = ()\<rparr>]\<rparr> =
     Inr (Some 2,
       \<lparr>pool_st = \<lparr>lock = False, stack = None, list = Some 2\<rparr>,
        mem = [1 \<mapsto> \<lparr>next = None, list_next = None, in_use = False, payload = ()\<rparr>,
               2 \<mapsto> \<lparr>next = Some 1, list_next = Some 1, in_use = False, payload = ()\<rparr>]\<rparr>) \<and>
   restore (Some 2) (Some 1)
     \<lparr>pool_st = \<lparr>lock = False, stack = None, list = Some 2\<rparr>,
      mem = [1 \<mapsto> \<lparr>next = None, list_next = None, in_use = False, payload = ()\<rparr>,
             2 \<mapsto> \<lparr>next = Some 1, list_next = Some 1, in_use = False, payload = ()\<rparr>]\<rparr> =
     Inr ((),
       \<lparr>pool_st = \<lparr>lock = False, stack = Some 2, list = Some 2\<rparr>,
        mem = [1 \<mapsto> \<lparr>next = None, list_next = None, in_use = False, payload = ()\<rparr>,
               2 \<mapsto> \<lparr>next = Some 1, list_next = Some 1, in_use = False, payload = ()\<rparr>]\<rparr>)"
proof -
  let ?s = "\<lparr>pool_st = \<lparr>lock = False, stack = Some 2, list = Some 2\<rparr>,
      mem = [1 \<mapsto> \<lparr>next = None, list_next = None, in_use = False, payload = ()\<rparr>,
             2 \<mapsto> \<lparr>next = Some 1, list_next = Some 1, in_use = False, payload = ()\<rparr>]\<rparr>"
  let ?s1 = "\<lparr>pool_st = \<lparr>lock = False, stack = None, list = Some 2\<rparr>,
      mem = [1 \<mapsto> \<lparr>next = None, list_next = None, in_use = False, payload = ()\<rparr>,
             2 \<mapsto> \<lparr>next = Some 1, list_next = Some 1, in_use = False, payload = ()\<rparr>]\<rparr>"
  have h: "free_list ?s [2, 1]" by (simp add: free_list_def)
  have e: "extract None ?s = Inr (Some 2, ?s1)" by (simp add: extract_None)
  from extract_restore_round_trip [OF h] obtain first s1 where
    1: "extract None ?s = Inr (first, s1)" and
    2: "[2, 1] \<noteq> ([] :: addr list) \<longrightarrow> first = Some (hd [2, 1]) \<and>
        (\<exists>s2 ys. restore first (Some (last [2, 1])) s1 = Inr ((), s2) \<and>
           free_list s2 ys \<and> set ys = set [2, 1] \<and> s2 = ?s \<and>
           (\<forall>rs. traversal s2 rs = traversal ?s rs))"
    by blast
  from 1 e have 3: "first = Some 2" "s1 = ?s1" by simp_all
  from 2 have "restore first (Some (last [2, 1])) s1 = Inr ((), ?s)" by auto
  with 3 have r: "restore (Some 2) (Some 1) ?s1 = Inr ((), ?s)" by simp
  show ?thesis by (intro conjI h e r)
qed

text \<open>
  C10, as stated, fails: \<open>restore\<close> writes the free-list link of the last object of
  the chain. Object 1 is released and extracted, so the chain is object 1 alone, with a
  null link; object 2 is released meanwhile. \<open>restore(1, 1)\<close> links object 1 to
  object 2.
\<close>

theorem restore_every_field_unchanged_counterexample:
  "run
     [Acquire (Some (1, \<lparr>next = None, list_next = None, in_use = False, payload = ()\<rparr>)),
      Acquire (Some (2, \<lparr>next = None, list_next = None, in_use = False, payload = ()\<rparr>)),
      Release (Some 1)] init =
     Inr \<lparr>pool_st = \<lparr>lock = False, stack = Some 1, list = Some 2\<rparr>,
          mem = [1 \<mapsto> \<lparr>next = None, list_next = None, in_use = False, payload = ()\<rparr>,
                 2 \<mapsto> \<lparr>next = None, list_next = Some 1, in_use = True, payload = ()\<rparr>]\<rparr> \<and>
   extract None
     \<lparr>pool_st = \<lparr>lock = False, stack = Some 1, list = Some 2\<rparr>,
      mem = [1 \<mapsto> \<lparr>next = None, list_next = None, in_use = False, payload = ()\<rparr>,
             2 \<mapsto> \<lparr>next = None, list_next = Some 1, in_use = True, payload = ()\<rparr>]\<rparr> =
     Inr (Some 1,
       \<lparr>pool_st = \<lparr>lock = False, stack = None, list = Some 2\<rparr>,
        mem = [1 \<mapsto> \<lparr>next = None, list_next = None, in_use = False, payload = ()\<rparr>,
               2 \<mapsto> \<lparr>next = None, list_next = Some 1, in_use = True, payload = ()\<rparr>]\<rparr>) \<and>
   release (Some 2)
     \<lparr>pool_st = \<lparr>lock = False, stack = None, list = Some 2\<rparr>,
      mem = [1 \<mapsto> \<lparr>next = None, list_next = None, in_use = False, payload = ()\<rparr>,
             2 \<mapsto> \<lparr>next = None, list_next = Some 1, in_use = True, payload = ()\<rparr>]\<rparr> =
     Inr ((),
       \<lparr>pool_st = \<lparr>lock = False, stack = Some 2, list = Some 2\<rparr>,
        mem = [1 \<mapsto> \<lparr>next = None, list_next = None, in_use = False, payload = ()\<rparr>,
               2 \<mapsto> \<lparr>next = None, list_next = Some 1, in_use = False, payload = ()\<rparr>]\<rparr>) \<and>
   restore (Some 1) (Some 1)
     \<lparr>pool_st = \<lparr>lock = False, stack = Some 2, list = Some 2\<rparr>,
      mem = [1 \<mapsto> \<lparr>next = None, list_next = None, in_use = False, payload = ()\<rparr>,
             2 \<mapsto> \<lparr>next = None, list_next = Some 1, in_use = False, payload = ()\<rparr>]\<rparr> =
     Inr ((),
       \<lparr>pool_st = \<lparr>lock = False, stack = Some 1, list = Some 2\<rparr>,
        mem = [1 \<mapsto> \<lparr>next = Some 2, list_next = None, in_use = False, payload = ()\<rparr>,
               2 \<mapsto> \<lparr>next = None, list_next = Some 1, in_use = False, payload = ()\<rparr>]\<rparr>) \<and>
   next \<lparr>next = Some 2, list_next = None, in_use = False, payload = ()\<rparr> \<noteq>
   next \<lparr>next = None, list_next = None, in_use = False, payload = ()\<rparr>"
  by (simp add: init_def acquire_miss release_Some extract_None restore_Some state_of_def
      fun_upd_twist)

text \<open>
  C10, amended. For a chain \<open>ys\<close> of distinct objects that starts at \<open>first\<close> and is
  disjoint from the free-list \<open>xs\<close>, \<open>restore(first, last)\<close> returns and splices the
  chain in front of the free-list. It writes one field only, the free-list link of the
  last object of the chain, which becomes the old top; every other field of every
  object is as it was, and no in-use flag is cleared or set.
\<close>

theorem restore_relinks_only_last:
  assumes ch: "chain next (mem s) first ys q" "ys \<noteq> []" "distinct ys"
    and fl: "free_list s xs" "set ys \<inter> set xs = {}"
  shows "\<exists>s'. restore first (Some (last ys)) s = Inr ((), s') \<and>
     free_list s' (ys @ xs) \<and>
     (\<forall>a ob. mem s a = Some ob \<longrightarrow>
        mem s' a = Some (if a = last ys then ob\<lparr>next := stack (pool_st s)\<rparr> else ob)) \<and>
     (\<forall>a ob ob'. mem s a = Some ob \<and> mem s' a = Some ob' \<longrightarrow>
        in_use ob' = in_use ob \<and> list_next ob' = list_next ob \<and> payload ob' = payload ob) \<and>
     (\<forall>a. mem s a = None \<longrightarrow> mem s' a = None) \<and>
     list (pool_st s') = list (pool_st s) \<and> lock (pool_st s') = lock (pool_st s)"
proof -
  from chain_last_link [OF ch(1) ch(2)] obtain ob where ob: "mem s (last ys) = Some ob"
    by blast
  let ?s' = "s\<lparr>mem := (mem s)(last ys \<mapsto> ob\<lparr>next := stack (pool_st s)\<rparr>),
               pool_st := (pool_st s)\<lparr>stack := first\<rparr>\<rparr>"
  have r: "restore first (Some (last ys)) s = Inr ((), ?s')" using ob by (rule restore_Some)
  have f: "free_list ?s' (ys @ xs)" using ch fl ob by (rule restore_splice)
  have m: "\<forall>a ob. mem s a = Some ob \<longrightarrow>
        mem ?s' a = Some (if a = last ys then ob\<lparr>next := stack (pool_st s)\<rparr> else ob)"
    using ob by simp
  have k: "\<forall>a ob ob'. mem s a = Some ob \<and> mem ?s' a = Some ob' \<longrightarrow>
        in_use ob' = in_use ob \<and> list_next ob' = list_next ob \<and> payload ob' = payload ob"
    using ob by (auto split: if_splits)
  have n: "\<forall>a. mem s a = None \<longrightarrow> mem ?s' a = None" using ob by auto
  have p: "list (pool_st ?s') = list (pool_st s)" "lock (pool_st ?s') = lock (pool_st s)"
    by simp_all
  from r f m k n p show ?thesis by blast
qed

theorem restore_relinks_only_last_witness:
  "chain next
     (mem \<lparr>pool_st = \<lparr>lock = False, stack = Some 3, list = Some 3\<rparr>,
           mem = [1 \<mapsto> \<lparr>next = None, list_next = None, in_use = False, payload = ()\<rparr>,
                  2 \<mapsto> \<lparr>next = Some 1, list_next = Some 1, in_use = False, payload = ()\<rparr>,
                  3 \<mapsto> \<lparr>next = None, list_next = Some 2, in_use = False, payload = ()\<rparr>]\<rparr>)
     (Some 2) [2, 1] None \<and>
   [2, 1] \<noteq> ([] :: addr list) \<and> distinct [2 :: addr, 1] \<and>
   free_list
     \<lparr>pool_st = \<lparr>lock = False, stack = Some 3, list = Some 3\<rparr>,
      mem = [1 \<mapsto> \<lparr>next = None, list_next = None, in_use = False, payload = ()\<rparr>,
             2 \<mapsto> \<lparr>next = Some 1, list_next = Some 1, in_use = False, payload = ()\<rparr>,
             3 \<mapsto> \<lparr>next = None, list_next = Some 2, in_use = False, payload = ()\<rparr>]\<rparr> [3] \<and>
   set [2 :: addr, 1] \<inter> set [3] = {} \<and>
   (\<exists>s'. restore (Some 2) (Some 1)
       \<lparr>pool_st = \<lparr>lock = False, stack = Some 3, list = Some 3\<rparr>,
        mem = [1 \<mapsto> \<lparr>next = None, list_next = None, in_use = False, payload = ()\<rparr>,
               2 \<mapsto> \<lparr>next = Some 1, list_next = Some 1, in_use = False, payload = ()\<rparr>,
               3 \<mapsto> \<lparr>next = None, list_next = Some 2, in_use = False, payload = ()\<rparr>]\<rparr> =
       Inr ((), s') \<and>
     free_list s' [2, 1, 3] \<and>
     mem s' 1 = Some \<lparr>next = Some 3, list_next = None, in_use = False, payload = ()\<rparr> \<and>
     mem s' 2 = Some \<lparr>next = Some 1, list_next = Some 1, in_use = False, payload = ()\<rparr> \<and>
     mem s' 3 = Some \<lparr>next = None, list_next = Some 2, in_use = False, payload = ()\<rparr>)"
proof -
  let ?s = "\<lparr>pool_st = \<lparr>lock = False, stack = Some 3, list = Some 3\<rparr>,
      mem = [1 \<mapsto> \<lparr>next = None, list_next = None, in_use = False, payload = ()\<rparr>,
             2 \<mapsto> \<lparr>next = Some 1, list_next = Some 1, in_use = False, payload = ()\<rparr>,
             3 \<mapsto> \<lparr>next = None, list_next = Some 2, in_use = False, payload = ()\<rparr>]\<rparr>"
  have h1: "chain next (mem ?s) (Some 2) [2, 1] None" by simp
  have h2: "[2, 1] \<noteq> ([] :: addr list)" by simp
  have h3: "distinct [2 :: addr, 1]" by simp
  have h4: "free_list ?s [3]" by (simp add: free_list_def)
  have h5: "set [2 :: addr, 1] \<inter> set [3] = {}" by simp
  from restore_relinks_only_last [OF h1 h2 h3 h4 h5] obtain s' where
    r: "restore (Some 2) (Some 1) ?s = Inr ((), s')" and
    f: "free_list s' [2, 1, 3]" and
    m: "\<forall>a ob. mem ?s a = Some ob \<longrightarrow>
        mem s' a = Some (if a = last [2, 1] then ob\<lparr>next := stack (pool_st ?s)\<rparr> else ob)"
    by auto
  from m have "mem s' 1 = Some \<lparr>next = Some 3, list_next = None, in_use = False, payload = ()\<rparr>"
    "mem s' 2 = Some \<lparr>next = Some 1, list_next = Some 1, in_use = False, payload = ()\<rparr>"
    "mem s' 3 = Some \<lparr>next = None, list_next = Some 2, in_use = False, payload = ()\<rparr>"
    by simp_all
  with r f have "\<exists>s'. restore (Some 2) (Some 1) ?s = Inr ((), s') \<and>
     free_list s' [2, 1, 3] \<and>
     mem s' 1 = Some \<lparr>next = Some 3, list_next = None, in_use = False, payload = ()\<rparr> \<and>
     mem s' 2 = Some \<lparr>next = Some 1, list_next = Some 1, in_use = False, payload = ()\<rparr> \<and>
     mem s' 3 = Some \<lparr>next = None, list_next = Some 2, in_use = False, payload = ()\<rparr>"
    by blast
  then show ?thesis by (intro conjI h1 h2 h3 h4 h5)
qed

section \<open>The empty free-list\<close>

text \<open>
  C8. On a pool state whose free-list is empty, \<open>extract(nullptr)\<close> and the \<open>pop_all\<close>
  under it return \<open>nullptr\<close> and leave the state as it is, so any number of such calls
  in a row return and end in the same state; \<open>pop\<close> returns \<open>nullptr\<close> as well.
\<close>

theorem extract_on_empty_free_list:
  "free_list s [] \<Longrightarrow>
   extract None s = Inr (None, s) \<and> pop_all s = Inr (None, s) \<and> pop s = Inr (None, s) \<and>
   run (replicate n (Extract None)) s = Inr s"
  by (simp add: free_list_def extract_def pop_all_empty pop_empty run_extract_empty)

theorem extract_on_empty_free_list_witness:
  "free_list
     \<lparr>pool_st = \<lparr>lock = False, stack = None, list = Some 1\<rparr>,
      mem = [1 \<mapsto> \<lparr>next = None, list_next = None, in_use = True, payload = ()\<rparr>]\<rparr> [] \<and>
   extract None
     \<lparr>pool_st = \<lparr>lock = False, stack = None, list = Some 1\<rparr>,
      mem = [1 \<mapsto> \<lparr>next = None, list_next = None, in_use = True, payload = ()\<rparr>]\<rparr> =
     Inr (None,
       \<lparr>pool_st = \<lparr>lock = False, stack = None, list = Some 1\<rparr>,
        mem = [1 \<mapsto> \<lparr>next = None, list_next = None, in_use = True, payload = ()\<rparr>]\<rparr>) \<and>
   pop
     \<lparr>pool_st = \<lparr>lock = False, stack = None, list = Some 1\<rparr>,
      mem = [1 \<mapsto> \<lparr>next = None, list_next = None, in_use = True, payload = ()\<rparr>]\<rparr> =
     Inr (None,
       \<lparr>pool_st = \<lparr>lock = False, stack = None, list = Some 1\<rparr>,
        mem = [1 \<mapsto> \<lparr>next = None, list_next = None, in_use = True, payload = ()\<rparr>]\<rparr>) \<and>
   run (replicate 3 (Extract None))
     \<lparr>pool_st = \<lparr>lock = False, stack = None, list = Some 1\<rparr>,
      mem = [1 \<mapsto> \<lparr>next = None, list_next = None, in_use = True, payload = ()\<rparr>]\<rparr> =
     Inr \<lparr>pool_st = \<lparr>lock = False, stack = None, list = Some 1\<rparr>,
          mem = [1 \<mapsto> \<lparr>next = None, list_next = None, in_use = True, payload = ()\<rparr>]\<rparr>"
proof -
  let ?s = "\<lparr>pool_st = \<lparr>lock = False, stack = None, list = Some 1\<rparr>,
      mem = [1 \<mapsto> \<lparr>next = None, list_next = None, in_use = True, payload = ()\<rparr>]\<rparr>"
  have h: "free_list ?s []" by (simp add: free_list_def)
  from extract_on_empty_free_list [OF h, of 3] h show ?thesis by blast
qed

section \<open>Free-list membership and the in-use flag\<close>

lemma pool_inv_init: "pool_inv init {} []"
  by (simp add: pool_inv_def free_list_def init_def)

lemma pool_inv_acquire_hit:
  assumes inv: "pool_inv s C xs" and top: "stack (pool_st s) = Some t" "mem s t = Some ob"
  shows "pool_inv (s\<lparr>pool_st := (pool_st s)\<lparr>stack := next ob\<rparr>,
                     mem := (mem s)(t \<mapsto> ob\<lparr>in_use := True\<rparr>)\<rparr>) C (tl xs)"
proof -
  from inv have fl: "chain next (mem s) (stack (pool_st s)) xs None"
    by (simp add: pool_inv_def free_list_def)
  from fl top obtain xs' where xs: "xs = t # xs'" by (cases xs) auto
  from fl top xs have ch: "chain next (mem s) (next ob) xs' None" by simp
  from inv xs have d: "t \<notin> set xs'" "distinct xs'" by (simp_all add: pool_inv_def)
  from inv xs have tC: "t \<notin> C" by (auto simp: pool_inv_def)
  have 1: "free_list (s\<lparr>pool_st := (pool_st s)\<lparr>stack := next ob\<rparr>,
                     mem := (mem s)(t \<mapsto> ob\<lparr>in_use := True\<rparr>)\<rparr>) xs'"
    using ch d(1) by (simp add: free_list_def chain_upd_other)
  have 2: "set xs' \<inter> C = {}" using inv xs by (auto simp: pool_inv_def)
  have 3: "C \<subseteq> dom ((mem s)(t \<mapsto> ob\<lparr>in_use := True\<rparr>))"
    using inv by (auto simp: pool_inv_def)
  have 4: "in_use ob' \<longleftrightarrow> a \<notin> set xs' \<and> a \<notin> C"
    if "((mem s)(t \<mapsto> ob\<lparr>in_use := True\<rparr>)) a = Some ob'" for a ob'
  proof (cases "a = t")
    case True
    with that d(1) tC show ?thesis by auto
  next
    case False
    with that have "mem s a = Some ob'" by simp
    with inv have "in_use ob' \<longleftrightarrow> a \<notin> set xs \<and> a \<notin> C" by (simp add: pool_inv_def)
    with False xs show ?thesis by simp
  qed
  from 1 d(2) 2 3 4 xs show ?thesis by (simp add: pool_inv_def)
qed

lemma pool_inv_acquire_miss:
  assumes inv: "pool_inv s C xs" and new: "mem s a = None" "in_use ob'"
  shows "pool_inv (s\<lparr>mem := (mem s)(a \<mapsto> ob'), pool_st := (pool_st s)\<lparr>list := l\<rparr>\<rparr>) C xs"
proof -
  from inv have fl: "chain next (mem s) (stack (pool_st s)) xs None"
    by (simp add: pool_inv_def free_list_def)
  have ax: "a \<notin> set xs"
    using chain_in_dom [OF fl, of a] new(1) by auto
  have aC: "a \<notin> C" using inv new(1) by (auto simp: pool_inv_def)
  have 1: "free_list (s\<lparr>mem := (mem s)(a \<mapsto> ob'), pool_st := (pool_st s)\<lparr>list := l\<rparr>\<rparr>) xs"
    using fl ax by (simp add: free_list_def chain_upd_other)
  have 3: "C \<subseteq> dom ((mem s)(a \<mapsto> ob'))" using inv by (auto simp: pool_inv_def)
  have 4: "in_use ob'' \<longleftrightarrow> b \<notin> set xs \<and> b \<notin> C"
    if "((mem s)(a \<mapsto> ob')) b = Some ob''" for b ob''
  proof (cases "b = a")
    case True
    with that ax aC new(2) show ?thesis by auto
  next
    case False
    with that have "mem s b = Some ob''" by simp
    with inv show ?thesis by (simp add: pool_inv_def)
  qed
  from 1 3 4 inv show ?thesis by (simp add: pool_inv_def)
qed

lemma pool_inv_release:
  assumes inv: "pool_inv s C xs" and ob: "mem s a = Some ob" "in_use ob"
  shows "pool_inv (s\<lparr>mem := (mem s)(a \<mapsto> ob\<lparr>in_use := False, next := stack (pool_st s)\<rparr>),
                     pool_st := (pool_st s)\<lparr>stack := Some a\<rparr>\<rparr>) C (a # xs)"
proof -
  from inv have fl: "chain next (mem s) (stack (pool_st s)) xs None"
    by (simp add: pool_inv_def free_list_def)
  from inv ob have ax: "a \<notin> set xs" and aC: "a \<notin> C" by (auto simp: pool_inv_def)
  have 1: "free_list (s\<lparr>mem := (mem s)(a \<mapsto> ob\<lparr>in_use := False, next := stack (pool_st s)\<rparr>),
                     pool_st := (pool_st s)\<lparr>stack := Some a\<rparr>\<rparr>) (a # xs)"
    using fl ax by (simp add: free_list_def chain_upd_other)
  have 2: "set (a # xs) \<inter> C = {}" using inv aC by (auto simp: pool_inv_def)
  have 3: "C \<subseteq> dom ((mem s)(a \<mapsto> ob\<lparr>in_use := False, next := stack (pool_st s)\<rparr>))"
    using inv by (auto simp: pool_inv_def)
  have 4: "in_use ob'' \<longleftrightarrow> b \<notin> set (a # xs) \<and> b \<notin> C"
    if "((mem s)(a \<mapsto> ob\<lparr>in_use := False, next := stack (pool_st s)\<rparr>)) b = Some ob''"
    for b ob''
  proof (cases "b = a")
    case True
    with that show ?thesis by auto
  next
    case False
    with that have "mem s b = Some ob''" by simp
    with inv have "in_use ob'' \<longleftrightarrow> b \<notin> set xs \<and> b \<notin> C" by (simp add: pool_inv_def)
    with False show ?thesis by simp
  qed
  from inv ax have 5: "distinct (a # xs)" by (simp add: pool_inv_def)
  from 1 2 3 4 5 show ?thesis unfolding pool_inv_def by (intro conjI allI impI) auto
qed

lemma pool_inv_extract_all:
  assumes inv: "pool_inv s C xs"
  shows "pool_inv (s\<lparr>pool_st := (pool_st s)\<lparr>stack := None\<rparr>\<rparr>) (C \<union> set xs) []"
proof -
  from inv have fl: "chain next (mem s) (stack (pool_st s)) xs None"
    by (simp add: pool_inv_def free_list_def)
  have "set xs \<subseteq> dom (mem s)" using chain_in_dom [OF fl] by auto
  with inv show ?thesis by (auto simp: pool_inv_def free_list_def)
qed

lemma pool_inv_restore:
  assumes inv: "pool_inv s C xs"
    and ch: "chain next (mem s) first ys q" "ys \<noteq> []" "distinct ys"
    and cl: "set ys \<subseteq> C"
    and ob: "mem s (last ys) = Some ob"
  shows "pool_inv (s\<lparr>mem := (mem s)(last ys \<mapsto> ob\<lparr>next := stack (pool_st s)\<rparr>),
                     pool_st := (pool_st s)\<lparr>stack := first\<rparr>\<rparr>) (C - set ys) (ys @ xs)"
proof -
  from inv have fl: "free_list s xs" and dx: "distinct xs" and xC: "set xs \<inter> C = {}"
    by (simp_all add: pool_inv_def)
  from cl xC have dis: "set ys \<inter> set xs = {}" by blast
  have 1: "free_list (s\<lparr>mem := (mem s)(last ys \<mapsto> ob\<lparr>next := stack (pool_st s)\<rparr>),
                     pool_st := (pool_st s)\<lparr>stack := first\<rparr>\<rparr>) (ys @ xs)"
    using ch fl dis ob by (rule restore_splice)
  have 2: "distinct (ys @ xs)" using ch(3) dx dis by simp
  have 3: "set (ys @ xs) \<inter> (C - set ys) = {}" using xC by auto
  have 4: "C - set ys \<subseteq> dom ((mem s)(last ys \<mapsto> ob\<lparr>next := stack (pool_st s)\<rparr>))"
    using inv by (auto simp: pool_inv_def)
  have 5: "in_use ob'' \<longleftrightarrow> b \<notin> set (ys @ xs) \<and> b \<notin> C - set ys"
    if "((mem s)(last ys \<mapsto> ob\<lparr>next := stack (pool_st s)\<rparr>)) b = Some ob''" for b ob''
  proof -
    have "\<exists>ob0. mem s b = Some ob0 \<and> in_use ob0 = in_use ob''"
      using that ob by (cases "b = last ys") auto
    then obtain ob0 where "mem s b = Some ob0" "in_use ob0 = in_use ob''" by blast
    with inv have "in_use ob'' \<longleftrightarrow> b \<notin> set xs \<and> b \<notin> C" by (simp add: pool_inv_def)
    with cl show ?thesis by auto
  qed
  from 1 2 3 4 5 show ?thesis unfolding pool_inv_def by (intro conjI allI impI) auto
qed

lemma reachable_pool_inv: "reachable s C \<Longrightarrow> \<exists>xs. pool_inv s C xs"
proof (induction rule: reachable.induct)
  case start
  show ?case using pool_inv_init by blast
next
  case (acquire_step s C supplied p s')
  then obtain xs where inv: "pool_inv s C xs" by blast
  from acquire_step.hyps(3) show ?case
  proof (cases rule: acquire_cases)
    case (hit t ob)
    from pool_inv_acquire_hit [OF inv hit(1) hit(2)] hit(4) show ?thesis by blast
  next
    case (miss a ob)
    from acquire_step.hyps(2) miss have "mem s a = None" by simp
    from pool_inv_acquire_miss [OF inv this,
        of "ob\<lparr>list_next := list (pool_st s), in_use := True\<rparr>" "Some a"] miss(5)
    show ?thesis by auto
  qed
next
  case (release_step s C a ob u s')
  then obtain xs where inv: "pool_inv s C xs" by blast
  from release_Some [OF release_step.hyps(2)] release_step.hyps(4)
  have "s' = s\<lparr>mem := (mem s)(a \<mapsto> ob\<lparr>in_use := False, next := stack (pool_st s)\<rparr>),
               pool_st := (pool_st s)\<lparr>stack := Some a\<rparr>\<rparr>" by simp
  with pool_inv_release [OF inv release_step.hyps(2) release_step.hyps(3)]
  show ?case by blast
next
  case (extract_all_step s C xs q s')
  then obtain xs' where inv: "pool_inv s C xs'" by blast
  then have "free_list s xs'" by (simp add: pool_inv_def)
  then have "xs' = xs"
    using extract_all_step.hyps(2) unfolding free_list_def by (rule chain_unique)
  moreover from extract_all_step.hyps(3)
  have "s' = s\<lparr>pool_st := (pool_st s)\<lparr>stack := None\<rparr>\<rparr>" by (simp add: extract_None)
  ultimately show ?case using pool_inv_extract_all [OF inv] by blast
next
  case (extract_walk_step s C a q s')
  from extract_walk_step.hyps(2) have "s' = s" by (cases rule: extract_cases) simp_all
  with extract_walk_step.IH show ?case by simp
next
  case (restore_step s C f ys q l u s')
  then obtain xs where inv: "pool_inv s C xs" by blast
  from chain_last_link [OF restore_step.hyps(2) restore_step.hyps(3)] restore_step.hyps(4)
  obtain ob where ob: "mem s l = Some ob" by auto
  from restore_Some [OF ob, of "Some f"] restore_step.hyps(7)
  have s': "s' = s\<lparr>mem := (mem s)(l \<mapsto> ob\<lparr>next := stack (pool_st s)\<rparr>),
               pool_st := (pool_st s)\<lparr>stack := Some f\<rparr>\<rparr>" by simp
  from ob restore_step.hyps(4) have ob': "mem s (last ys) = Some ob" by simp
  from pool_inv_restore [OF inv restore_step.hyps(2) restore_step.hyps(3)
      restore_step.hyps(5) restore_step.hyps(6) ob'] s' restore_step.hyps(4)
  show ?case by auto
next
  case (iterate_step s C p q s')
  from iterate_step.hyps(2) have "s' = s" by (rule iterate_state)
  with iterate_step.IH show ?case by simp
qed

text \<open>
  C3. In every state that callers keeping the contract can reach by \<open>acquire\<close>,
  \<open>release\<close>, \<open>extract\<close>, \<open>restore\<close> (and \<open>iterate\<close>) from the initial state, the
  free-list is a well-formed list, and an object that is not claimed is on the free-list
  if and only if its in-use flag is clear. The claimed objects, those between
  \<open>extract(nullptr)\<close> and their \<open>restore\<close>, are the exception: their flag is clear and
  they are not on the free-list.
\<close>

theorem free_list_iff_not_in_use:
  assumes "reachable s C"
  shows "\<exists>xs. free_list s xs \<and>
     (\<forall>a ob. mem s a = Some ob \<and> a \<notin> C \<longrightarrow> (a \<in> set xs \<longleftrightarrow> \<not> in_use ob)) \<and>
     (\<forall>a. a \<in> C \<longrightarrow> a \<notin> set xs \<and> (\<exists>ob. mem s a = Some ob \<and> \<not> in_use ob))"
proof -
  from reachable_pool_inv [OF assms] obtain xs where inv: "pool_inv s C xs" by blast
  then have 1: "free_list s xs" by (simp add: pool_inv_def)
  have 2: "a \<in> set xs \<longleftrightarrow> \<not> in_use ob" if "mem s a = Some ob" "a \<notin> C" for a ob
    using inv that by (auto simp: pool_inv_def)
  have 3: "a \<notin> set xs \<and> (\<exists>ob. mem s a = Some ob \<and> \<not> in_use ob)" if "a \<in> C" for a
  proof -
    from inv that obtain ob where "mem s a = Some ob" by (auto simp: pool_inv_def)
    with inv that show ?thesis by (auto simp: pool_inv_def)
  qed
  from 1 2 3 show ?thesis by blast
qed

theorem free_list_iff_not_in_use_witness:
  "reachable
     \<lparr>pool_st = \<lparr>lock = False, stack = Some 2, list = Some 3\<rparr>,
      mem = [1 \<mapsto> \<lparr>next = None, list_next = None, in_use = False, payload = ()\<rparr>,
             2 \<mapsto> \<lparr>next = None, list_next = Some 1, in_use = False, payload = ()\<rparr>,
             3 \<mapsto> \<lparr>next = None, list_next = Some 2, in_use = True, payload = ()\<rparr>]\<rparr> {1} \<and>
   free_list
     \<lparr>pool_st = \<lparr>lock = False, stack = Some 2, list = Some 3\<rparr>,
      mem = [1 \<mapsto> \<lparr>next = None, list_next = None, in_use = False, payload = ()\<rparr>,
             2 \<mapsto> \<lparr>next = None, list_next = Some 1, in_use = False, payload = ()\<rparr>,
             3 \<mapsto> \<lparr>next = None, list_next = Some 2, in_use = True, payload = ()\<rparr>]\<rparr> [2] \<and>
   ((2 :: addr) \<in> set [2]) =
     (\<not> in_use \<lparr>next = None, list_next = Some 1, in_use = False, payload = ()\<rparr>) \<and>
   ((3 :: addr) \<in> set [2]) =
     (\<not> in_use \<lparr>next = None, list_next = Some 2, in_use = True, payload = ()\<rparr>) \<and>
   (1 :: addr) \<notin> set [2] \<and>
   reachable
     \<lparr>pool_st = \<lparr>lock = False, stack = Some 1, list = Some 3\<rparr>,
      mem = [1 \<mapsto> \<lparr>next = Some 2, list_next = None, in_use = False, payload = ()\<rparr>,
             2 \<mapsto> \<lparr>next = None, list_next = Some 1, in_use = False, payload = ()\<rparr>,
             3 \<mapsto> \<lparr>next = None, list_next = Some 2, in_use = True, payload = ()\<rparr>]\<rparr> {} \<and>
   free_list
     \<lparr>pool_st = \<lparr>lock = False, stack = Some 1, list = Some 3\<rparr>,
      mem = [1 \<mapsto> \<lparr>next = Some 2, list_next = None, in_use = False, payload = ()\<rparr>,
             2 \<mapsto> \<lparr>next = None, list_next = Some 1, in_use = False, payload = ()\<rparr>,
             3 \<mapsto> \<lparr>next = None, list_next = Some 2, in_use = True, payload = ()\<rparr>]\<rparr> [1, 2] \<and>
   ((1 :: addr) \<in> set [1, 2]) =
     (\<not> in_use \<lparr>next = Some 2, list_next = None, in_use = False, payload = ()\<rparr>)"
proof -
  let ?ob = "\<lparr>next = None, list_next = None, in_use = False, payload = ()\<rparr>"
  let ?s1 = "\<lparr>pool_st = \<lparr>lock = False, stack = None, list = Some 1\<rparr>,
      mem = [1 \<mapsto> \<lparr>next = None, list_next = None, in_use = True, payload = ()\<rparr>]\<rparr>"
  let ?s2 = "\<lparr>pool_st = \<lparr>lock = False, stack = None, list = Some 2\<rparr>,
      mem = [1 \<mapsto> \<lparr>next = None, list_next = None, in_use = True, payload = ()\<rparr>,
             2 \<mapsto> \<lparr>next = None, list_next = Some 1, in_use = True, payload = ()\<rparr>]\<rparr>"
  let ?s3 = "\<lparr>pool_st = \<lparr>lock = False, stack = None, list = Some 3\<rparr>,
      mem = [1 \<mapsto> \<lparr>next = None, list_next = None, in_use = True, payload = ()\<rparr>,
             2 \<mapsto> \<lparr>next = None, list_next = Some 1, in_use = True, payload = ()\<rparr>,
             3 \<mapsto> \<lparr>next = None, list_next = Some 2, in_use = True, payload = ()\<rparr>]\<rparr>"
  let ?s4 = "\<lparr>pool_st = \<lparr>lock = False, stack = Some 1, list = Some 3\<rparr>,
      mem = [1 \<mapsto> \<lparr>next = None, list_next = None, in_use = False, payload = ()\<rparr>,
             2 \<mapsto> \<lparr>next = None, list_next = Some 1, in_use = True, payload = ()\<rparr>,
             3 \<mapsto> \<lparr>next = None, list_next = Some 2, in_use = True, payload = ()\<rparr>]\<rparr>"
  let ?s5 = "\<lparr>pool_st = \<lparr>lock = False, stack = None, list = Some 3\<rparr>,
      mem = [1 \<mapsto> \<lparr>next = None, list_next = None, in_use = False, payload = ()\<rparr>,
             2 \<mapsto> \<lparr>next = None, list_next = Some 1, in_use = True, payload = ()\<rparr>,
             3 \<mapsto> \<lparr>next = None, list_next = Some 2, in_use = True, payload = ()\<rparr>]\<rparr>"
  let ?s6 = "\<lparr>pool_st = \<lparr>lock = False, stack = Some 2, list = Some 3\<rparr>,
      mem = [1 \<mapsto> \<lparr>next = None, list_next = None, in_use = False, payload = ()\<rparr>,
             2 \<mapsto> \<lparr>next = None, list_next = Some 1, in_use = False, payload = ()\<rparr>,
             3 \<mapsto> \<lparr>next = None, list_next = Some 2, in_use = True, payload = ()\<rparr>]\<rparr>"
  have r0: "reachable (init :: unit machine) {}" by (rule reachable.start)
  have a1: "acquire (Some (1, ?ob)) init = Inr (Some 1, ?s1)"
    by (simp add: init_def acquire_miss)
  have r1: "reachable ?s1 {}"
    by (rule reachable.acquire_step [OF r0 _ a1]) (simp add: init_def)
  have a2: "acquire (Some (2, ?ob)) ?s1 = Inr (Some 2, ?s2)"
    by (simp add: acquire_miss)
  have r2: "reachable ?s2 {}"
    by (rule reachable.acquire_step [OF r1 _ a2]) simp
  have a3: "acquire (Some (3, ?ob)) ?s2 = Inr (Some 3, ?s3)"
    by (simp add: acquire_miss)
  have r3: "reachable ?s3 {}"
    by (rule reachable.acquire_step [OF r2 _ a3]) simp
  have a4: "release (Some 1) ?s3 = Inr ((), ?s4)"
    by (simp add: release_Some fun_upd_twist)
  have r4: "reachable ?s4 {}"
    by (rule reachable.release_step [OF r3 _ _ a4,
          where ob = "\<lparr>next = None, list_next = None, in_use = True, payload = ()\<rparr>"])
      simp_all
  have a5: "extract None ?s4 = Inr (Some 1, ?s5)"
    by (simp add: extract_None)
  have "reachable ?s5 ({} \<union> set [1])"
    by (rule reachable.extract_all_step [OF r4 _ a5]) (simp add: free_list_def)
  then have r5: "reachable ?s5 {1}" by simp
  have a6: "release (Some 2) ?s5 = Inr ((), ?s6)"
    by (simp add: release_Some fun_upd_twist)
  have r6: "reachable ?s6 {1}"
    by (rule reachable.release_step [OF r5 _ _ a6,
          where ob = "\<lparr>next = None, list_next = Some 1, in_use = True, payload = ()\<rparr>"])
      simp_all
  have f: "free_list ?s6 [2]" by (simp add: free_list_def)
  from free_list_iff_not_in_use [OF r6] obtain xs where
    xs: "free_list ?s6 xs"
      "\<forall>a ob. mem ?s6 a = Some ob \<and> a \<notin> {1} \<longrightarrow> (a \<in> set xs \<longleftrightarrow> \<not> in_use ob)"
      "\<forall>a. a \<in> {1} \<longrightarrow> a \<notin> set xs \<and> (\<exists>ob. mem ?s6 a = Some ob \<and> \<not> in_use ob)"
    by blast
  from xs(1) f have eq: "xs = [2]" unfolding free_list_def by (rule chain_unique)
  from xs(2) [rule_format, of 2 "\<lparr>next = None, list_next = Some 1, in_use = False, payload = ()\<rparr>"]
  have a: "((2 :: addr) \<in> set [2]) =
     (\<not> in_use \<lparr>next = None, list_next = Some 1, in_use = False, payload = ()\<rparr>)"
    unfolding eq by simp
  from xs(2) [rule_format, of 3 "\<lparr>next = None, list_next = Some 2, in_use = True, payload = ()\<rparr>"]
  have b: "((3 :: addr) \<in> set [2]) =
     (\<not> in_use \<lparr>next = None, list_next = Some 2, in_use = True, payload = ()\<rparr>)"
    unfolding eq by simp
  from xs(3) [rule_format, of 1] have c: "(1 :: addr) \<notin> set [2]" unfolding eq by simp
  let ?s7 = "\<lparr>pool_st = \<lparr>lock = False, stack = Some 1, list = Some 3\<rparr>,
      mem = [1 \<mapsto> \<lparr>next = Some 2, list_next = None, in_use = False, payload = ()\<rparr>,
             2 \<mapsto> \<lparr>next = None, list_next = Some 1, in_use = False, payload = ()\<rparr>,
             3 \<mapsto> \<lparr>next = None, list_next = Some 2, in_use = True, payload = ()\<rparr>]\<rparr>"
  have a7: "restore (Some 1) (Some 1) ?s6 = Inr ((), ?s7)"
    by (simp add: restore_Some fun_upd_twist)
  have "reachable ?s7 ({1} - set [1])"
    by (rule reachable.restore_step [OF r6 _ _ _ _ _ a7, where q = None]) simp_all
  then have r7: "reachable ?s7 {}" by simp
  have f7: "free_list ?s7 [1, 2]" by (simp add: free_list_def)
  from free_list_iff_not_in_use [OF r7] obtain zs where
    zs: "free_list ?s7 zs"
      "\<forall>a ob. mem ?s7 a = Some ob \<and> a \<notin> {} \<longrightarrow> (a \<in> set zs \<longleftrightarrow> \<not> in_use ob)"
    by blast
  from zs(1) f7 have eq7: "zs = [1, 2]" unfolding free_list_def by (rule chain_unique)
  from zs(2) [rule_format, of 1 "\<lparr>next = Some 2, list_next = None, in_use = False, payload = ()\<rparr>"]
  have d: "((1 :: addr) \<in> set [1, 2]) =
     (\<not> in_use \<lparr>next = Some 2, list_next = None, in_use = False, payload = ()\<rparr>)"
    unfolding eq7 by simp
  show ?thesis by (intro conjI r6 f a b c r7 f7 d)
qed


section \<open>The singleton accessor\<close>

lemma distinct_count_once: "distinct xs \<Longrightarrow> x \<in> set xs \<Longrightarrow> count_list xs x = 1"
  by (induction xs) auto

lemma pool_location: "fst (pool declared t g) = Static_state"
  by (simp add: pool_def Let_def)

lemma pool_calls_locations: "set (fst (pool_calls declared ts g)) \<subseteq> {Static_state}"
proof (induction ts arbitrary: g)
  case Nil
  show ?case by simp
next
  case (Cons t ts)
  obtain r g1 where p: "pool declared t g = (r, g1)" by (cases "pool declared t g")
  obtain rs g2 where c: "pool_calls declared ts g1 = (rs, g2)"
    by (cases "pool_calls declared ts g1")
  from pool_location [of declared t g] p have "r = Static_state" by simp
  moreover from Cons.IH [of g1] c have "set rs \<subseteq> {Static_state}" by simp
  ultimately show ?case using p c by simp
qed

lemma gate_ok_gate0: "gate_ok declared gate0"
  by (simp add: gate_ok_def gate0_def)

lemma pool_gate_ok: "gate_ok declared g \<Longrightarrow> gate_ok declared (snd (pool declared t g))"
  by (auto simp: gate_ok_def pool_def Let_def ensure_init_def call_ensure_init_def)

lemma pool_calls_gate_ok:
  "gate_ok declared g \<Longrightarrow> gate_ok declared (snd (pool_calls declared ts g))"
proof (induction ts arbitrary: g)
  case Nil
  then show ?case by simp
next
  case (Cons t ts)
  from pool_gate_ok [OF Cons.prems, of t] have "gate_ok declared (snd (pool declared t g))" .
  from Cons.IH [OF this] show ?case by (auto split: prod.splits)
qed

lemma pool_initialized: "initialized (snd (pool declared t g)) t"
  by (simp add: pool_def Let_def ensure_init_def call_ensure_init_def)

lemma pool_first_use:
  "\<not> initialized g t \<Longrightarrow>
   hook_calls (snd (pool declared t g)) = (if declared then hook_calls g @ [t] else hook_calls g)"
  by (simp add: pool_def Let_def ensure_init_def call_ensure_init_def)

lemma pool_later_use: "initialized g t \<Longrightarrow> pool declared t g = (Static_state, g)"
  by (simp add: pool_def)

text \<open>
  C9. There is one pool state: after any history \<open>ts\<close> of calls of \<open>pool()\<close> by any
  threads, starting with no thread initialised, every call so far has returned the
  location of the one static \<open>state\<close>, and so does a further call by any thread \<open>t\<close>.
  When that call returns, the marker of \<open>t\<close> is set and, if the hook is declared, \<open>t\<close>
  has invoked it, exactly once over the whole history: on its first use, when its marker
  was still unset, and before the reference was returned.
\<close>

theorem pool_one_state_hook_on_first_use:
  assumes "pool_calls declared ts gate0 = (rs, g)" "pool declared t g = (r, g')"
  shows "set rs \<subseteq> {Static_state} \<and> r = Static_state \<and> initialized g' t \<and>
     (declared \<longrightarrow> count_list (hook_calls g') t = 1) \<and>
     (initialized g t \<longrightarrow> g' = g) \<and>
     (\<not> initialized g t \<and> declared \<longrightarrow> hook_calls g' = hook_calls g @ [t])"
proof -
  have 1: "set rs \<subseteq> {Static_state}"
    using pool_calls_locations [of declared ts gate0] assms(1) by simp
  have 2: "r = Static_state" using pool_location [of declared t g] assms(2) by simp
  have 3: "initialized g' t" using pool_initialized [of declared t g] assms(2) by simp
  have "gate_ok declared g"
    using pool_calls_gate_ok [OF gate_ok_gate0, of declared ts] assms(1) by simp
  then have ok: "gate_ok declared g'"
    using pool_gate_ok [of declared g t] assms(2) by simp
  have 4: "count_list (hook_calls g') t = 1" if declared
  proof -
    from ok that 3 have "distinct (hook_calls g')" "t \<in> set (hook_calls g')"
      by (simp_all add: gate_ok_def)
    then show ?thesis by (rule distinct_count_once)
  qed
  have 5: "g' = g" if "initialized g t"
    using pool_later_use [OF that, of declared] assms(2) by simp
  have 6: "hook_calls g' = hook_calls g @ [t]" if "\<not> initialized g t" declared
    using pool_first_use [OF that(1), of declared] that(2) assms(2) by simp
  from 1 2 3 4 5 6 show ?thesis by blast
qed

theorem pool_one_state_hook_on_first_use_witness:
  "pool_calls True [0, 1, 0] gate0 =
     ([Static_state, Static_state, Static_state],
      \<lparr>initialized = (\<lambda>_. False)(0 := True, 1 := True), hook_calls = [0, 1]\<rparr>) \<and>
   pool True 2 \<lparr>initialized = (\<lambda>_. False)(0 := True, 1 := True), hook_calls = [0, 1]\<rparr> =
     (Static_state,
      \<lparr>initialized = (\<lambda>_. False)(0 := True, 1 := True, 2 := True), hook_calls = [0, 1, 2]\<rparr>) \<and>
   count_list [0, 1, 2] (2 :: tid) = 1"
proof -
  let ?g = "\<lparr>initialized = (\<lambda>_. False)(0 := True, 1 := True), hook_calls = [0, 1]\<rparr>"
  let ?g' = "\<lparr>initialized = (\<lambda>_. False)(0 := True, 1 := True, 2 := True), hook_calls = [0, 1, 2]\<rparr>"
  have h1: "pool_calls True [0, 1, 0] gate0 = ([Static_state, Static_state, Static_state], ?g)"
    by (simp add: gate0_def pool_def Let_def ensure_init_def call_ensure_init_def)
  have h2: "pool True 2 ?g = (Static_state, ?g')"
    by (simp add: pool_def Let_def ensure_init_def call_ensure_init_def)
  from pool_one_state_hook_on_first_use [OF h1 h2]
  have "count_list (hook_calls ?g') 2 = 1" by simp
  then have h3: "count_list [0, 1, 2] (2 :: tid) = 1" by simp
  show ?thesis by (intro conjI h1 h2 h3)
qed

end
